theory Spec2Isabelle
  imports Main
begin

section \<open>The question-block classifier of qb\_to\_anki\_7.py\<close>

text \<open>
  The development embeds \<^verbatim>\<open>parse_qb\<close> (lines 82 to 117 of the source) together with
  what it calls: \<^verbatim>\<open>NOISE_PATTERNS\<close>, \<^verbatim>\<open>CHOICE_RE\<close>, \<^verbatim>\<open>CORRECT_RE\<close>,
  \<^verbatim>\<open>is_noise\<close> and \<^verbatim>\<open>to_half\<close> (lines 52 to 79).

  A Python \<^verbatim>\<open>str\<close> is a sequence of Unicode code points, so it is modelled as a list of
  integers (\<^verbatim>\<open>ord\<close> of each character). Isabelle's own \<open>string\<close> has 8-bit characters
  and cannot hold the Japanese text the program works on. Code points are written in
  hexadecimal; the comments name the character.
\<close>

type_synonym ustr = "int list"

datatype error = TypeError | ValueError

subsection \<open>Character tables of the Python runtime\<close>

text \<open>
  \<^verbatim>\<open>str.strip()\<close> without argument and the regular expression escape \<^verbatim>\<open>\s\<close> (on a
  \<^verbatim>\<open>str\<close> pattern) both use the same test, \<^verbatim>\<open>str.isspace\<close>: the 29 code points below.
\<close>

definition isspace :: "int \<Rightarrow> bool" where
  "isspace c \<longleftrightarrow>
     (0x9 \<le> c \<and> c \<le> 0xD) \<or> (0x1C \<le> c \<and> c \<le> 0x1F) \<or> c = 0x20 \<or> c = 0x85 \<or>
     c = 0xA0 \<or> c = 0x1680 \<or> (0x2000 \<le> c \<and> c \<le> 0x200A) \<or> c = 0x2028 \<or>
     c = 0x2029 \<or> c = 0x202F \<or> c = 0x205F \<or> c = 0x3000"

text \<open>The line boundaries of \<^verbatim>\<open>str.splitlines()\<close>.\<close>

definition linebreak :: "int \<Rightarrow> bool" where
  "linebreak c \<longleftrightarrow>
     (0xA \<le> c \<and> c \<le> 0xD) \<or> (0x1C \<le> c \<and> c \<le> 0x1E) \<or> c = 0x85 \<or>
     c = 0x2028 \<or> c = 0x2029"

text \<open>
  \<^verbatim>\<open>\d\<close> on a \<^verbatim>\<open>str\<close> pattern is any character of Unicode category Nd. In Unicode 14
  these are 61 blocks of ten consecutive code points, listed by their first code point,
  and the mathematical digits U+1D7CE to U+1D7FF.
\<close>

definition nd_blocks :: "int list" where
  "nd_blocks = [
    0x30, 0x660, 0x6F0, 0x7C0, 0x966, 0x9E6, 0xA66, 0xAE6, 0xB66, 0xBE6,
    0xC66, 0xCE6, 0xD66, 0xDE6, 0xE50, 0xED0, 0xF20, 0x1040, 0x1090, 0x17E0,
    0x1810, 0x1946, 0x19D0, 0x1A80, 0x1A90, 0x1B50, 0x1BB0, 0x1C40, 0x1C50,
    0xA620, 0xA8D0, 0xA900, 0xA9D0, 0xA9F0, 0xAA50, 0xABF0, 0xFF10, 0x104A0,
    0x10D30, 0x11066, 0x110F0, 0x11136, 0x111D0, 0x112F0, 0x11450, 0x114D0,
    0x11650, 0x116C0, 0x11730, 0x118E0, 0x11950, 0x11C50, 0x11D50, 0x11DA0,
    0x16A60, 0x16AC0, 0x16B50, 0x1E140, 0x1E2F0, 0x1E950, 0x1FBF0]"

definition isdecimal :: "int \<Rightarrow> bool" where
  "isdecimal c \<longleftrightarrow>
     list_ex (\<lambda>b. b \<le> c \<and> c \<le> b + 9) nd_blocks \<or> (0x1D7CE \<le> c \<and> c \<le> 0x1D7FF)"

text \<open>
  Case mapping. Python's tables are large; the two functions below are exact on Basic
  Latin and on the full-width forms and leave every other code point alone. This is all
  the program needs: \<^verbatim>\<open>lower\<close> is only used to decide membership in the token class
  of \<^verbatim>\<open>CORRECT_RE\<close>, into which no other cased character folds, and \<^verbatim>\<open>upper\<close> is only
  applied to a character that matched that class.
\<close>

definition lower_char :: "int \<Rightarrow> int" where
  "lower_char c =
     (if (0x41 \<le> c \<and> c \<le> 0x5A) \<or> (0xFF21 \<le> c \<and> c \<le> 0xFF3A) then c + 0x20 else c)"

definition upper_char :: "int \<Rightarrow> int" where
  "upper_char c =
     (if (0x61 \<le> c \<and> c \<le> 0x7A) \<or> (0xFF41 \<le> c \<and> c \<le> 0xFF5A) then c - 0x20 else c)"

definition upper :: "ustr \<Rightarrow> ustr" where
  "upper s = map upper_char s"

subsection \<open>String operations\<close>

definition strip :: "ustr \<Rightarrow> ustr" where
  "strip s = rev (dropWhile isspace (rev (dropWhile isspace s)))"

text \<open>
  \<^verbatim>\<open>splitlines\<close>: \<open>cur\<close> is the line being read. A carriage return directly followed by
  a line feed is one boundary. A trailing boundary opens no empty last line.
\<close>

fun splitlines_from :: "ustr \<Rightarrow> ustr \<Rightarrow> ustr list" where
  "splitlines_from cur [] = (if cur = [] then [] else [cur])"
| "splitlines_from cur (c # cs) =
     (if c = 0xD \<and> cs \<noteq> [] \<and> hd cs = 0xA then cur # splitlines_from [] (tl cs)
      else if linebreak c then cur # splitlines_from [] cs
      else splitlines_from (cur @ [c]) cs)"

definition splitlines :: "ustr \<Rightarrow> ustr list" where
  "splitlines s = splitlines_from [] s"

text \<open>\<^verbatim>\<open>"\n".join(ls)\<close>\<close>

fun join_nl :: "ustr list \<Rightarrow> ustr" where
  "join_nl [] = []"
| "join_nl [l] = l"
| "join_nl (l # m # ls) = l @ 0xA # join_nl (m # ls)"

text \<open>Python compares strings lexicographically by code point.\<close>

fun str_le :: "ustr \<Rightarrow> ustr \<Rightarrow> bool" where
  "str_le [] ys = True"
| "str_le (x # xs) [] = False"
| "str_le (x # xs) (y # ys) = (x < y \<or> (x = y \<and> str_le xs ys))"

definition ord :: "ustr \<Rightarrow> error + int" where
  "ord c = (case c of [x] \<Rightarrow> Inr x | _ \<Rightarrow> Inl TypeError)"

definition chr :: "int \<Rightarrow> error + ustr" where
  "chr n = (if 0 \<le> n \<and> n < 0x110000 then Inr [n] else Inl ValueError)"

subsection \<open>Regular expressions\<close>

text \<open>
  Python's \<^verbatim>\<open>re\<close> is a backtracking matcher. A pattern is modelled as a function from
  the rest of the subject to the list of rests that remain after each way of matching, in
  the order in which the engine tries them; the engine's match is the head of that list.
  Every repetition in the program's patterns is over a single character class, so greedy
  repetition is defined on those.
\<close>

type_synonym rx = "ustr \<Rightarrow> ustr list"

definition rx_cls :: "(int \<Rightarrow> bool) \<Rightarrow> rx" where
  "rx_cls P s = (case s of [] \<Rightarrow> [] | x # xs \<Rightarrow> if P x then [xs] else [])"

definition rx_lit :: "int \<Rightarrow> rx" where
  "rx_lit c = rx_cls (\<lambda>x. x = c)"

definition rx_seq :: "rx \<Rightarrow> rx \<Rightarrow> rx" where
  "rx_seq a b s = concat (map b (a s))"

definition rx_eps :: rx where
  "rx_eps s = [s]"

definition rx_cat :: "rx list \<Rightarrow> rx" where
  "rx_cat rs = foldr rx_seq rs rx_eps"

definition rx_str :: "ustr \<Rightarrow> rx" where
  "rx_str w = rx_cat (map rx_lit w)"

text \<open>\<^verbatim>\<open>x?\<close>: first with, then without.\<close>

definition rx_opt :: "rx \<Rightarrow> rx" where
  "rx_opt a s = a s @ [s]"

text \<open>\<^verbatim>\<open>[..]*\<close>: longest first.\<close>

fun rx_star :: "(int \<Rightarrow> bool) \<Rightarrow> rx" where
  "rx_star P [] = [[]]"
| "rx_star P (x # xs) = (if P x then rx_star P xs @ [x # xs] else [x # xs])"

definition rx_plus :: "(int \<Rightarrow> bool) \<Rightarrow> rx" where
  "rx_plus P = rx_seq (rx_cls P) (rx_star P)"

text \<open>\<^verbatim>\<open>$\<close> without \<^verbatim>\<open>re.MULTILINE\<close>: at the end, or before a line feed that ends the subject.\<close>

definition rx_eol :: rx where
  "rx_eol s = (if s = [] \<or> s = [0xA] then [s] else [])"

text \<open>\<^verbatim>\<open>$\<close> with \<^verbatim>\<open>re.MULTILINE\<close>: at the end, or before any line feed.\<close>

definition rx_eol_m :: rx where
  "rx_eol_m s = (if s = [] \<or> hd s = 0xA then [s] else [])"

text \<open>
  \<^verbatim>\<open>p.match(s)\<close> tries the pattern at position 0 only, where a leading \<^verbatim>\<open>^\<close> (without
  \<^verbatim>\<open>re.MULTILINE\<close>) always holds; the models of the patterns therefore drop it.
\<close>

definition re_match :: "rx \<Rightarrow> ustr \<Rightarrow> bool" where
  "re_match p s \<longleftrightarrow> p s \<noteq> []"

text \<open>
  \<^verbatim>\<open>re.search\<close> with \<^verbatim>\<open>re.MULTILINE\<close> for a pattern \<^verbatim>\<open>^p\<close>: the positions are tried
  from left to right, \<^verbatim>\<open>^\<close> holds at position 0 and after each line feed. The result is
  the span (start, end) of the first match. \<open>i\<close> is the current position, \<open>bol\<close> says
  whether \<^verbatim>\<open>^\<close> holds there.
\<close>

fun re_search_from :: "rx \<Rightarrow> nat \<Rightarrow> bool \<Rightarrow> ustr \<Rightarrow> (nat \<times> nat) option" where
  "re_search_from p i bol [] =
     (case (if bol then p [] else []) of
        m # _ \<Rightarrow> Some (i, i)
      | [] \<Rightarrow> None)"
| "re_search_from p i bol (c # cs) =
     (case (if bol then p (c # cs) else []) of
        m # _ \<Rightarrow> Some (i, i + (length (c # cs) - length m))
      | [] \<Rightarrow> re_search_from p (Suc i) (c = 0xA) cs)"

definition re_search_m :: "rx \<Rightarrow> ustr \<Rightarrow> (nat \<times> nat) option" where
  "re_search_m p s = re_search_from p 0 True s"

text \<open>
  \<^verbatim>\<open>re.sub(r"^p", "", s)\<close> without \<^verbatim>\<open>re.MULTILINE\<close>: the pattern can only match at
  position 0; the match is removed.
\<close>

definition re_sub_start :: "rx \<Rightarrow> ustr \<Rightarrow> ustr" where
  "re_sub_start p s = (case p s of [] \<Rightarrow> s | m # _ \<Rightarrow> m)"

subsection \<open>The patterns (lines 52 to 71)\<close>

definition any_char :: "int \<Rightarrow> bool" where
  "any_char c \<longleftrightarrow> c \<noteq> 0xA"

definition colon :: "int \<Rightarrow> bool" where
  "colon c \<longleftrightarrow> c = 0x3A \<or> c = 0xFF1A"

text \<open>
  \<^verbatim>\<open>NOISE_PATTERNS\<close>, in the order of the source:
  \<^enum> \<^verbatim>\<open>^\d{4}\s+\d+-\d+\<close>
  \<^enum> \<^verbatim>\<open>^XXX$\<close> with XXX = U+57FA U+6E96 U+5024 (reference range)
  \<^enum> \<^verbatim>\<open>^\d+-\d+$\<close>
  \<^enum> \<^verbatim>\<open>^XXXX$\<close> with XXXX = U+30EA U+30C8 U+30E9 U+30A4 (retry)
  \<^enum> \<^verbatim>\<open>^\[XXX\<close> with XXX = U+63B2 U+8F09 U+9801 (page of publication)
  \<^enum> \<^verbatim>\<open>^ID\s*:\<close>
  \<^enum> \<^verbatim>\<open>^XX[:C]?\s*$\<close> with XX = U+89E3 U+7B54 (answer), C = U+FF1A (full-width colon)
  \<^enum> \<^verbatim>\<open>^XX[:C]?\s*$\<close> with XX = U+7D50 U+679C (result)
  \<^enum> \<^verbatim>\<open>^XX\<close> with XX = U+5C65 U+6B74 (history)
  \<^enum> \<^verbatim>\<open>^XXXXX\<close> with XXXXX = U+81EA U+5206 U+304C U+767B U+9332 (self-registered)
  \<^enum> \<^verbatim>\<open>^\d{4}/\d{1,2}/\d{1,2}\<close>
  \<^enum> \<^verbatim>\<open>^\*\s*$\<close>
  \<^enum> \<^verbatim>\<open>.*[OQ]\s*XX\<close> with O = U+25CB, Q = U+25EF (circles), XX = U+6B63 U+89E3
    (correct)
  \<^enum> \<^verbatim>\<open>^[Mx]\s*XXX\<close> with M = U+00D7 (multiplication sign), XXX = U+4E0D U+6B63 U+89E3
    (incorrect)
  \<^enum> \<^verbatim>\<open>^XXXXXX$\<close> with XXXXXX = U+30AC U+30A4 U+30C9 U+30E9 U+30A4 U+30F3 (guideline)
  \<^enum> \<^verbatim>\<open>^XXXXXX\<close> with XXXXXX = U+57FA U+672C U+4E8B U+9805 U+306A U+3069 (basics, etc.)
\<close>

definition NOISE_PATTERNS :: "rx list" where
  "NOISE_PATTERNS = [
     rx_cat [rx_cls isdecimal, rx_cls isdecimal, rx_cls isdecimal, rx_cls isdecimal,
             rx_plus isspace, rx_plus isdecimal, rx_lit 0x2D, rx_plus isdecimal],
     rx_cat [rx_str [0x57FA, 0x6E96, 0x5024], rx_eol],
     rx_cat [rx_plus isdecimal, rx_lit 0x2D, rx_plus isdecimal, rx_eol],
     rx_cat [rx_str [0x30EA, 0x30C8, 0x30E9, 0x30A4], rx_eol],
     rx_str [0x5B, 0x63B2, 0x8F09, 0x9801],
     rx_cat [rx_str [0x49, 0x44], rx_star isspace, rx_lit 0x3A],
     rx_cat [rx_str [0x89E3, 0x7B54], rx_opt (rx_cls colon), rx_star isspace, rx_eol],
     rx_cat [rx_str [0x7D50, 0x679C], rx_opt (rx_cls colon), rx_star isspace, rx_eol],
     rx_str [0x5C65, 0x6B74],
     rx_str [0x81EA, 0x5206, 0x304C, 0x767B, 0x9332],
     rx_cat [rx_cls isdecimal, rx_cls isdecimal, rx_cls isdecimal, rx_cls isdecimal,
             rx_lit 0x2F, rx_cls isdecimal, rx_opt (rx_cls isdecimal),
             rx_lit 0x2F, rx_cls isdecimal, rx_opt (rx_cls isdecimal)],
     rx_cat [rx_lit 0x2A, rx_star isspace, rx_eol],
     rx_cat [rx_star any_char, rx_cls (\<lambda>c. c = 0x25CB \<or> c = 0x25EF), rx_star isspace,
             rx_str [0x6B63, 0x89E3]],
     rx_cat [rx_cls (\<lambda>c. c = 0xD7 \<or> c = 0x78), rx_star isspace,
             rx_str [0x4E0D, 0x6B63, 0x89E3]],
     rx_cat [rx_str [0x30AC, 0x30A4, 0x30C9, 0x30E9, 0x30A4, 0x30F3], rx_eol],
     rx_str [0x57FA, 0x672C, 0x4E8B, 0x9805, 0x306A, 0x3069]]"

text \<open>
  The token class \<^verbatim>\<open>[aAa'-e'a-eA-E1'-5'1-5(1)-(5)]\<close> of both \<^verbatim>\<open>CHOICE_RE\<close> and
  \<^verbatim>\<open>CORRECT_RE\<close>, in the order written: a, A, full-width a to e (U+FF41 to U+FF45),
  a to e, A to E, full-width 1 to 5 (U+FF11 to U+FF15), 1 to 5, circled 1 to 5 (U+2460 to
  U+2464).
\<close>

definition token :: "int \<Rightarrow> bool" where
  "token c \<longleftrightarrow>
     c = 0x61 \<or> c = 0x41 \<or> (0xFF41 \<le> c \<and> c \<le> 0xFF45) \<or> (0x61 \<le> c \<and> c \<le> 0x65) \<or>
     (0x41 \<le> c \<and> c \<le> 0x45) \<or> (0xFF11 \<le> c \<and> c \<le> 0xFF15) \<or> (0x31 \<le> c \<and> c \<le> 0x35) \<or>
     (0x2460 \<le> c \<and> c \<le> 0x2464)"

text \<open>
  Under \<^verbatim>\<open>re.IGNORECASE\<close> the engine lowers the subject's character and looks it up in
  the lowered class. The class above contains the lower case of each of its members, so
  the lookup is in the class itself.
\<close>

definition token_ic :: "int \<Rightarrow> bool" where
  "token_ic c \<longleftrightarrow> token (lower_char c)"

text \<open>\<^verbatim>\<open>CHOICE_RE = ^\*\s*[token]\s\<close>\<close>

definition CHOICE_RE :: rx where
  "CHOICE_RE = rx_cat [rx_lit 0x2A, rx_star isspace, rx_cls token, rx_cls isspace]"

text \<open>
  \<^verbatim>\<open>CORRECT_RE = ^XX[:C]?\s*([token])\<close> with \<^verbatim>\<open>re.IGNORECASE\<close>, XX = U+6B63 U+89E3
  (correct answer), C = U+FF1A. The pattern is split at its group: \<open>CORRECT_RE_head\<close>
  is what precedes the group, \<open>CORRECT_RE_group\<close> the group's content.
\<close>

definition CORRECT_RE_head :: rx where
  "CORRECT_RE_head = rx_cat [rx_str [0x6B63, 0x89E3], rx_opt (rx_cls colon), rx_star isspace]"

definition CORRECT_RE_group :: rx where
  "CORRECT_RE_group = rx_cls token_ic"

text \<open>
  \<^verbatim>\<open>cm = CORRECT_RE.match(line)\<close> followed by \<^verbatim>\<open>cm.group(1)\<close>: \<open>None\<close> when there is no
  match, otherwise the text the group matched in the first successful attempt, which is
  what lies between the rest before the group and the rest after it.
\<close>

definition CORRECT_RE_match :: "ustr \<Rightarrow> ustr option" where
  "CORRECT_RE_match s =
     (case concat (map (\<lambda>r. map (\<lambda>r'. take (length r - length r') r) (CORRECT_RE_group r))
                       (CORRECT_RE_head s)) of
        [] \<Rightarrow> None
      | g # _ \<Rightarrow> Some g)"

text \<open>\<^verbatim>\<open>re.search(r"^XX\s*$", text, re.MULTILINE)\<close>, XX = U+89E3 U+8AAC (explanation)\<close>

definition EXPLAIN_RE :: rx where
  "EXPLAIN_RE = rx_cat [rx_str [0x89E3, 0x8AAC], rx_star isspace, rx_eol_m]"

subsection \<open>The functions (lines 74 to 117)\<close>

definition is_noise :: "ustr \<Rightarrow> bool" where
  "is_noise line \<longleftrightarrow> list_ex (\<lambda>p. re_match p (strip line)) NOISE_PATTERNS"

text \<open>
  \<^verbatim>\<open>to_half\<close>: the two range tests are string comparisons with the full-width letters
  a (U+FF41), z (U+FF5A), A (U+FF21) and Z (U+FF3A); \<^verbatim>\<open>ord\<close> raises on a string that is
  not one character long and \<^verbatim>\<open>chr\<close> on a number that is no code point.
\<close>

definition to_half :: "ustr \<Rightarrow> error + ustr" where
  "to_half c =
     (if (str_le [0xFF41] c \<and> str_le c [0xFF5A]) \<or> (str_le [0xFF21] c \<and> str_le c [0xFF3A])
      then (case ord c of Inl e \<Rightarrow> Inl e | Inr n \<Rightarrow> chr (n - 0xFEE0))
      else Inr c)"

record parsed =
  question :: ustr
  choices :: "ustr list"
  correct :: ustr
  explanation :: ustr

text \<open>
  The loop of lines 99 to 110 over the lines of the "before" segment; \<open>q\<close>, \<open>ch\<close> and
  \<open>co\<close> are the variables \<^verbatim>\<open>question\<close>, \<^verbatim>\<open>choices\<close> and \<^verbatim>\<open>correct\<close>.
\<close>

fun classify :: "ustr list \<Rightarrow> ustr \<Rightarrow> ustr list \<Rightarrow> ustr \<Rightarrow> error + (ustr \<times> ustr list \<times> ustr)" where
  "classify [] q ch co = Inr (q, ch, co)"
| "classify (raw # rest) q ch co =
     (let line = strip raw in
      if line = [] \<or> is_noise line then classify rest q ch co
      else case CORRECT_RE_match line of
        Some g \<Rightarrow>
          (case to_half g of
             Inl e \<Rightarrow> Inl e
           | Inr h \<Rightarrow> classify rest q ch (upper h))
      | None \<Rightarrow>
          if re_match CHOICE_RE line
          then classify rest q (ch @ [re_sub_start (rx_cat [rx_lit 0x2A, rx_star isspace]) line]) co
          else classify rest (q @ (if q \<noteq> [] then [0xA] else []) @ line) ch co)"

text \<open>Lines 83 to 92: the segment before the marker and the explanation.\<close>

definition split_explanation :: "ustr \<Rightarrow> ustr \<times> ustr" where
  "split_explanation text =
     (case re_search_m EXPLAIN_RE text of
        Some (start, end) \<Rightarrow>
          (take start text,
           strip (join_nl (filter (\<lambda>l. strip l \<noteq> [] \<and> \<not> is_noise l)
                                  (splitlines (drop end text)))))
      | None \<Rightarrow> (text, []))"

definition parse_qb :: "ustr \<Rightarrow> error + parsed" where
  "parse_qb text =
     (case split_explanation text of (before, expl) \<Rightarrow>
        (case classify (splitlines before) [] [] [] of
           Inl e \<Rightarrow> Inl e
         | Inr (q, ch, co) \<Rightarrow>
             Inr \<lparr>question = strip q, choices = ch, correct = co, explanation = expl\<rparr>))"

subsection \<open>The functions with the module's names as state\<close>

text \<open>
  When they are called, \<^verbatim>\<open>is_noise\<close> and \<^verbatim>\<open>parse_qb\<close> read three names of the
  module: \<^verbatim>\<open>NOISE_PATTERNS\<close> (a list, which can be changed in place),
  \<^verbatim>\<open>CHOICE_RE\<close> and \<^verbatim>\<open>CORRECT_RE\<close>. To say what an invocation does to them, the
  functions are embedded a second time with these names as explicit state: each function
  takes the state and returns it next to its result. \<open>module_globals\<close> is the state after
  lines 52 to 71. The source has no assignment to these names and calls no method on them
  but \<^verbatim>\<open>match\<close>; \<^verbatim>\<open>question\<close>, \<^verbatim>\<open>choices\<close> and \<^verbatim>\<open>correct\<close> are created by
  each invocation (lines 95 to 97). The patterns of lines 83 and 108 are literals, no names
  of the module, and stay constants.

  \<open>is_noise_st\<close> is \<^verbatim>\<open>is_noise\<close>, \<open>classify_st\<close> the loop of lines 99 to 110,
  \<open>kept_lines_st\<close> the generator expression of line 88, whose \<^verbatim>\<open>and\<close> does not call
  \<^verbatim>\<open>is_noise\<close> on a blank line, and \<open>parse_qb_st\<close> is \<^verbatim>\<open>parse_qb\<close>.
\<close>

record globals =
  noise_patterns :: "rx list"
  choice_re :: rx
  correct_re :: "ustr \<Rightarrow> ustr option"

definition module_globals :: globals where
  "module_globals =
     \<lparr>noise_patterns = NOISE_PATTERNS, choice_re = CHOICE_RE, correct_re = CORRECT_RE_match\<rparr>"

definition is_noise_st :: "ustr \<Rightarrow> globals \<Rightarrow> bool \<times> globals" where
  "is_noise_st line g = (list_ex (\<lambda>p. re_match p (strip line)) (noise_patterns g), g)"

fun classify_st ::
  "ustr list \<Rightarrow> ustr \<Rightarrow> ustr list \<Rightarrow> ustr \<Rightarrow> globals \<Rightarrow>
   (error + (ustr \<times> ustr list \<times> ustr)) \<times> globals" where
  "classify_st [] q ch co g = (Inr (q, ch, co), g)"
| "classify_st (raw # rest) q ch co g =
     (let line = strip raw in
      if line = [] then classify_st rest q ch co g
      else case is_noise_st line g of (noise, g1) \<Rightarrow>
        if noise then classify_st rest q ch co g1
        else case correct_re g1 line of
          Some c \<Rightarrow>
            (case to_half c of
               Inl e \<Rightarrow> (Inl e, g1)
             | Inr h \<Rightarrow> classify_st rest q ch (upper h) g1)
        | None \<Rightarrow>
            if re_match (choice_re g1) line
            then classify_st rest q
                   (ch @ [re_sub_start (rx_cat [rx_lit 0x2A, rx_star isspace]) line]) co g1
            else classify_st rest (q @ (if q \<noteq> [] then [0xA] else []) @ line) ch co g1)"

fun kept_lines_st :: "ustr list \<Rightarrow> globals \<Rightarrow> ustr list \<times> globals" where
  "kept_lines_st [] g = ([], g)"
| "kept_lines_st (l # ls) g =
     (if strip l = [] then kept_lines_st ls g
      else case is_noise_st l g of (noise, g1) \<Rightarrow>
        (case kept_lines_st ls g1 of (ks, g2) \<Rightarrow> (if noise then ks else l # ks, g2)))"

definition parse_qb_st :: "ustr \<Rightarrow> globals \<Rightarrow> (error + parsed) \<times> globals" where
  "parse_qb_st text g =
     (case (case re_search_m EXPLAIN_RE text of
              Some (start, end) \<Rightarrow>
                (case kept_lines_st (splitlines (drop end text)) g of
                   (ks, g1) \<Rightarrow> (take start text, strip (join_nl ks), g1))
            | None \<Rightarrow> (text, [], g)) of
        (before, expl, g1) \<Rightarrow>
          (case classify_st (splitlines before) [] [] [] g1 of
             (Inl e, g2) \<Rightarrow> (Inl e, g2)
           | (Inr (q, ch, co), g2) \<Rightarrow>
               (Inr \<lparr>question = strip q, choices = ch, correct = co, explanation = expl\<rparr>, g2)))"

subsection \<open>Notions used in the statements\<close>

text \<open>
  The remaining definitions are not part of the program; the properties below are stated
  with them.

  \<open>half_upper\<close> is the half-width upper-case form of a Latin letter, half-width or
  full-width, lower or upper case; every other character is left as it is.
  \<open>stored_form\<close> holds for the letters A to E, the digits 1 to 5, the full-width digits
  1 to 5 and the circled digits 1 to 5. \<open>fullwidth_form\<close> holds for the full-width
  variants of the printable ASCII characters (U+FF01 to U+FF5E).
\<close>

definition half_upper :: "int \<Rightarrow> int" where
  "half_upper t =
     (if 0x61 \<le> t \<and> t \<le> 0x7A then t - 0x20
      else if 0xFF21 \<le> t \<and> t \<le> 0xFF3A then t - 0xFEE0
      else if 0xFF41 \<le> t \<and> t \<le> 0xFF5A then t - 0xFF00
      else t)"

definition stored_form :: "int \<Rightarrow> bool" where
  "stored_form c \<longleftrightarrow>
     (0x41 \<le> c \<and> c \<le> 0x45) \<or> (0x31 \<le> c \<and> c \<le> 0x35) \<or>
     (0xFF11 \<le> c \<and> c \<le> 0xFF15) \<or> (0x2460 \<le> c \<and> c \<le> 0x2464)"

definition fullwidth_form :: "int \<Rightarrow> bool" where
  "fullwidth_form c \<longleftrightarrow> 0xFF01 \<le> c \<and> c \<le> 0xFF5E"

text \<open>
  \<open>enumerator\<close> is the set of enumerator tokens the specification lists: a to e and A to E,
  half-width and full-width, the digits 1 to 5, half-width and full-width, and the circled
  digits 1 to 5. \<open>choice_form\<close> holds for a line that consists of the marker \<^verbatim>\<open>*\<close>, any
  number of whitespace characters (possibly none), an enumerator token and a whitespace
  character, followed by anything. \<open>fullwidth_upper_enumerator\<close> holds when the first
  character after the marker and the whitespace is a full-width upper-case letter A to E.
  \<open>claimed_choice_form\<close> is the form as claim C3 words it: the marker, at least one
  whitespace character, an enumerator token.
\<close>

definition enumerator :: "int \<Rightarrow> bool" where
  "enumerator t \<longleftrightarrow>
     (0x61 \<le> t \<and> t \<le> 0x65) \<or> (0x41 \<le> t \<and> t \<le> 0x45) \<or>
     (0xFF41 \<le> t \<and> t \<le> 0xFF45) \<or> (0xFF21 \<le> t \<and> t \<le> 0xFF25) \<or>
     (0x31 \<le> t \<and> t \<le> 0x35) \<or> (0xFF11 \<le> t \<and> t \<le> 0xFF15) \<or>
     (0x2460 \<le> t \<and> t \<le> 0x2464)"

definition choice_form :: "ustr \<Rightarrow> bool" where
  "choice_form line =
     (case line of
        [] \<Rightarrow> False
      | c # r \<Rightarrow> c = 0x2A \<and>
          (case dropWhile isspace r of
             t # s # _ \<Rightarrow> enumerator t \<and> isspace s
           | _ \<Rightarrow> False))"

definition fullwidth_upper_enumerator :: "ustr \<Rightarrow> bool" where
  "fullwidth_upper_enumerator line =
     (case line of
        [] \<Rightarrow> False
      | c # r \<Rightarrow>
          (case dropWhile isspace r of
             [] \<Rightarrow> False
           | t # _ \<Rightarrow> 0xFF21 \<le> t \<and> t \<le> 0xFF25))"

definition claimed_choice_form :: "ustr \<Rightarrow> bool" where
  "claimed_choice_form line =
     (case line of
        c # s # r \<Rightarrow> c = 0x2A \<and> isspace s \<and>
          (case dropWhile isspace r of
             [] \<Rightarrow> False
           | t # _ \<Rightarrow> enumerator t)
      | _ \<Rightarrow> False)"

text \<open>
  \<open>before_lines\<close> are the lines of the "before" segment, each trimmed, as the loop sees
  them. \<open>choice_line\<close> holds for a trimmed line that is not empty, is no noise, does not
  match \<^verbatim>\<open>CORRECT_RE\<close> and matches \<^verbatim>\<open>CHOICE_RE\<close>. \<open>without_marker\<close> removes the
  first character of a line and the whitespace after it.
\<close>

definition before_lines :: "ustr \<Rightarrow> ustr list" where
  "before_lines text = map strip (splitlines (fst (split_explanation text)))"

definition choice_line :: "ustr \<Rightarrow> bool" where
  "choice_line l \<longleftrightarrow>
     l \<noteq> [] \<and> \<not> is_noise l \<and> CORRECT_RE_match l = None \<and> re_match CHOICE_RE l"

definition without_marker :: "ustr \<Rightarrow> ustr" where
  "without_marker l = dropWhile isspace (tl l)"

text \<open>
  \<open>prose_line\<close> holds for a trimmed line that is not empty, is no noise and matches
  neither \<^verbatim>\<open>CORRECT_RE\<close> nor \<^verbatim>\<open>CHOICE_RE\<close>: the lines the loop appends to
  \<open>question\<close>. \<open>trimmed\<close> holds for a string that is not empty and neither starts nor
  ends with a whitespace character.
\<close>

definition prose_line :: "ustr \<Rightarrow> bool" where
  "prose_line l \<longleftrightarrow>
     l \<noteq> [] \<and> \<not> is_noise l \<and> CORRECT_RE_match l = None \<and> \<not> re_match CHOICE_RE l"

definition trimmed :: "ustr \<Rightarrow> bool" where
  "trimmed s \<longleftrightarrow> s \<noteq> [] \<and> \<not> isspace (hd s) \<and> \<not> isspace (last s)"

text \<open>
  The explanation marker, described without the regular expression. \<open>line_start t i\<close>
  holds when position \<open>i\<close> of \<open>t\<close> is the beginning of the text or follows a line feed,
  and \<open>line_at t i\<close> is the text from position \<open>i\<close> up to the next line feed or the
  end. \<open>marker_line\<close> holds for the marker word U+89E3 U+8AAC followed by nothing but
  whitespace. \<open>first_marker\<close> is the first position at which such a line starts, and
  \<open>after_line t i\<close> is what follows the line feed that ends the line at \<open>i\<close>.
  \<open>kept_line\<close> holds for a line of the "after" segment that is neither blank nor noise;
  \<open>kept_text\<close> joins the kept lines of a text and trims the result. \<open>split_at_marker\<close>
  splits a text at its first marker line. \<open>claimed_marker_line\<close> is the marker line as
  claim C4 words it: the marker word with whitespace allowed on both sides.
\<close>

definition marker_line :: "ustr \<Rightarrow> bool" where
  "marker_line l \<longleftrightarrow> take 2 l = [0x89E3, 0x8AAC] \<and> list_all isspace (drop 2 l)"

definition line_at :: "ustr \<Rightarrow> nat \<Rightarrow> ustr" where
  "line_at t i = takeWhile (\<lambda>c. c \<noteq> 0xA) (drop i t)"

definition after_line :: "ustr \<Rightarrow> nat \<Rightarrow> ustr" where
  "after_line t i = tl (dropWhile (\<lambda>c. c \<noteq> 0xA) (drop i t))"

definition line_start :: "ustr \<Rightarrow> nat \<Rightarrow> bool" where
  "line_start t i \<longleftrightarrow> i = 0 \<or> t ! (i - 1) = 0xA"

definition first_marker :: "ustr \<Rightarrow> nat option" where
  "first_marker t =
     find (\<lambda>i. line_start t i \<and> marker_line (line_at t i)) [0..<Suc (length t)]"

definition kept_line :: "ustr \<Rightarrow> bool" where
  "kept_line l \<longleftrightarrow> strip l \<noteq> [] \<and> \<not> is_noise l"

definition kept_text :: "ustr \<Rightarrow> ustr" where
  "kept_text s = strip (join_nl (filter kept_line (splitlines s)))"

definition split_at_marker :: "ustr \<Rightarrow> ustr \<times> ustr" where
  "split_at_marker t =
     (case first_marker t of
        None \<Rightarrow> (t, [])
      | Some i \<Rightarrow> (take i t, kept_text (after_line t i)))"

definition claimed_marker_line :: "ustr \<Rightarrow> bool" where
  "claimed_marker_line l \<longleftrightarrow> strip l = [0x89E3, 0x8AAC]"

text \<open>
  \<open>trim_ends\<close> removes the whitespace at the beginning of the first line of a list and
  at the end of its last line, and leaves every other line, and the inner ends of these
  two, as they are.
\<close>

fun trim_ends :: "ustr list \<Rightarrow> ustr list" where
  "trim_ends [] = []"
| "trim_ends [l] = [strip l]"
| "trim_ends (l # m # ls) =
     dropWhile isspace l # butlast (m # ls) @ [rev (dropWhile isspace (rev (last (m # ls))))]"

text \<open>
  \<open>correct_line\<close> holds for a trimmed line that is not empty, is no noise and matches
  \<^verbatim>\<open>CORRECT_RE\<close>.
\<close>

definition correct_line :: "ustr \<Rightarrow> bool" where
  "correct_line l \<longleftrightarrow> l \<noteq> [] \<and> \<not> is_noise l \<and> CORRECT_RE_match l \<noteq> None"

section \<open>Properties\<close>

subsection \<open>The classifier returns a record\<close>

lemma rx_cls_iff: "r' \<in> set (rx_cls P r) \<longleftrightarrow> (\<exists>x. r = x # r' \<and> P x)"
  by (cases r) (auto simp: rx_cls_def)

text \<open>The group of \<^verbatim>\<open>CORRECT_RE\<close> always holds exactly one character of the token class.\<close>

lemma CORRECT_RE_match_single:
  assumes "CORRECT_RE_match s = Some g"
  shows "\<exists>c. g = [c] \<and> token_ic c"
proof -
  let ?gs = "concat (map (\<lambda>r. map (\<lambda>r'. take (length r - length r') r) (CORRECT_RE_group r))
                       (CORRECT_RE_head s))"
  from assms obtain gs where "?gs = g # gs"
    by (auto simp: CORRECT_RE_match_def split: list.splits)
  then have "g \<in> set ?gs"
    by (simp del: set_concat)
  then obtain r r' where "r' \<in> set (CORRECT_RE_group r)" and g: "g = take (length r - length r') r"
    by auto
  then obtain x where "r = x # r'" "token_ic x"
    by (auto simp: CORRECT_RE_group_def rx_cls_iff)
  with g show ?thesis by simp
qed

text \<open>On a string of one character neither \<^verbatim>\<open>ord\<close> nor \<^verbatim>\<open>chr\<close> raises.\<close>

lemma to_half_single:
  "to_half [c] =
     Inr [if (0xFF41 \<le> c \<and> c \<le> 0xFF5A) \<or> (0xFF21 \<le> c \<and> c \<le> 0xFF3A) then c - 0xFEE0 else c]"
  by (auto simp: to_half_def ord_def chr_def)

lemma classify_total: "\<exists>r. classify ls q ch co = Inr r"
proof (induction ls arbitrary: q ch co)
  case Nil
  show ?case by simp
next
  case (Cons raw rest)
  show ?case
  proof (cases "CORRECT_RE_match (strip raw)")
    case None
    with Cons show ?thesis by (simp add: Let_def)
  next
    case (Some g)
    then obtain c where "g = [c]" using CORRECT_RE_match_single by blast
    with Some Cons show ?thesis by (simp add: Let_def to_half_single)
  qed
qed

lemma parse_qb_total: "\<exists>r. parse_qb text = Inr r"
proof -
  obtain bef expl where s: "split_explanation text = (bef, expl)"
    by (cases "split_explanation text")
  obtain q ch co where "classify (splitlines bef) [] [] [] = Inr (q, ch, co)"
    using classify_total [of "splitlines bef" "[]" "[]" "[]"] by auto
  with s show "\<exists>r. parse_qb text = Inr r" by (simp add: parse_qb_def)
qed

subsection \<open>The scenario of the specification\<close>

text \<open>
  Claim C1. The input has six lines: the question U+8CEA U+554F U+6587; the choices
  "* a " and "* b ", each followed by U+9078 U+629E U+80A2 and the digit 1 or 2; the
  correct-answer line U+6B63 U+89E3 U+FF1A "b"; the explanation marker U+89E3 U+8AAC; the
  explanation U+8AAC U+660E U+6587 U+3067 U+3059. The classifier returns the question
  line, the two choices without "* ", the correct answer "B" and the explanation line.
\<close>

theorem parse_qb_scenario:
  "parse_qb [0x8CEA, 0x554F, 0x6587, 0xA,
             0x2A, 0x20, 0x61, 0x20, 0x9078, 0x629E, 0x80A2, 0x31, 0xA,
             0x2A, 0x20, 0x62, 0x20, 0x9078, 0x629E, 0x80A2, 0x32, 0xA,
             0x6B63, 0x89E3, 0xFF1A, 0x62, 0xA,
             0x89E3, 0x8AAC, 0xA,
             0x8AAC, 0x660E, 0x6587, 0x3067, 0x3059] =
   Inr \<lparr>question = [0x8CEA, 0x554F, 0x6587],
        choices = [[0x61, 0x20, 0x9078, 0x629E, 0x80A2, 0x31],
                   [0x62, 0x20, 0x9078, 0x629E, 0x80A2, 0x32]],
        correct = [0x42],
        explanation = [0x8AAC, 0x660E, 0x6587, 0x3067, 0x3059]\<rparr>"
  by code_simp

subsection \<open>One step of the loop\<close>

lemma to_half_upper: "to_half [t] = Inr h \<Longrightarrow> upper h = [half_upper t]"
  unfolding to_half_single upper_def upper_char_def half_upper_def
  by (cases "0xFF41 \<le> t \<and> t \<le> 0xFF5A"; cases "0xFF21 \<le> t \<and> t \<le> 0xFF3A"; force)

lemma token_ic_iff:
  "token_ic t \<longleftrightarrow>
     (0x61 \<le> t \<and> t \<le> 0x65) \<or> (0x41 \<le> t \<and> t \<le> 0x45) \<or>
     (0xFF41 \<le> t \<and> t \<le> 0xFF45) \<or> (0xFF21 \<le> t \<and> t \<le> 0xFF25) \<or>
     (0x31 \<le> t \<and> t \<le> 0x35) \<or> (0xFF11 \<le> t \<and> t \<le> 0xFF15) \<or>
     (0x2460 \<le> t \<and> t \<le> 0x2464)"
proof
  assume "token_ic t"
  then have tok: "token (lower_char t)" by (simp only: token_ic_def)
  consider (lat) "0x41 \<le> t \<and> t \<le> 0x5A" | (full) "0xFF21 \<le> t \<and> t \<le> 0xFF3A"
    | (other) "\<not> (0x41 \<le> t \<and> t \<le> 0x5A)" "\<not> (0xFF21 \<le> t \<and> t \<le> 0xFF3A)"
    by blast
  then show "(0x61 \<le> t \<and> t \<le> 0x65) \<or> (0x41 \<le> t \<and> t \<le> 0x45) \<or>
     (0xFF41 \<le> t \<and> t \<le> 0xFF45) \<or> (0xFF21 \<le> t \<and> t \<le> 0xFF25) \<or>
     (0x31 \<le> t \<and> t \<le> 0x35) \<or> (0xFF11 \<le> t \<and> t \<le> 0xFF15) \<or>
     (0x2460 \<le> t \<and> t \<le> 0x2464)"
  proof cases
    case lat
    then have "lower_char t = t + 0x20" by (simp add: lower_char_def)
    with tok have "token (t + 0x20)" by simp
    then show ?thesis unfolding token_def using lat by (elim disjE) simp_all
  next
    case full
    then have "lower_char t = t + 0x20" by (simp add: lower_char_def)
    with tok have "token (t + 0x20)" by simp
    then show ?thesis unfolding token_def using full by (elim disjE) simp_all
  next
    case other
    then have "lower_char t = t" by (simp add: lower_char_def)
    with tok have "token t" by simp
    then show ?thesis unfolding token_def by (elim disjE) simp_all
  qed
next
  assume "(0x61 \<le> t \<and> t \<le> 0x65) \<or> (0x41 \<le> t \<and> t \<le> 0x45) \<or>
     (0xFF41 \<le> t \<and> t \<le> 0xFF45) \<or> (0xFF21 \<le> t \<and> t \<le> 0xFF25) \<or>
     (0x31 \<le> t \<and> t \<le> 0x35) \<or> (0xFF11 \<le> t \<and> t \<le> 0xFF15) \<or>
     (0x2460 \<le> t \<and> t \<le> 0x2464)"
  then show "token_ic t"
    by (elim disjE) (simp_all add: token_ic_def lower_char_def token_def)
qed

lemma token_ic_stored: "token_ic t \<Longrightarrow> stored_form (half_upper t)"
  unfolding token_ic_iff stored_form_def half_upper_def
  by (elim disjE) simp_all

lemma stored_form_upper: "stored_form c \<Longrightarrow> upper_char c = c"
  unfolding stored_form_def upper_char_def
  by (elim disjE) simp_all

text \<open>Each line takes exactly one of the four branches of the loop body.\<close>

lemma classify_skip:
  "strip raw = [] \<or> is_noise (strip raw) \<Longrightarrow>
   classify (raw # rest) q ch co = classify rest q ch co"
  by (simp only: classify.simps Let_def if_True)

lemma classify_correct_step:
  assumes "strip raw \<noteq> []" "\<not> is_noise (strip raw)" "CORRECT_RE_match (strip raw) = Some g"
  shows "\<exists>t. g = [t] \<and> token_ic t \<and>
             classify (raw # rest) q ch co = classify rest q ch [half_upper t]"
proof -
  from assms(3) obtain t where t: "g = [t]" "token_ic t"
    using CORRECT_RE_match_single by blast
  obtain h where h: "to_half [t] = Inr h" by (simp add: to_half_single)
  then have u: "upper h = [half_upper t]" by (rule to_half_upper)
  from assms(1,2) have n: "\<not> (strip raw = [] \<or> is_noise (strip raw))" by simp
  have "classify (raw # rest) q ch co = classify rest q ch [half_upper t]"
    by (simp only: classify.simps Let_def n if_False assms(3) t(1) h u option.case sum.case)
  with t show ?thesis by blast
qed

lemma classify_choice_step:
  assumes "strip raw \<noteq> []" "\<not> is_noise (strip raw)" "CORRECT_RE_match (strip raw) = None"
    "re_match CHOICE_RE (strip raw)"
  shows "classify (raw # rest) q ch co =
     classify rest q (ch @ [re_sub_start (rx_cat [rx_lit 0x2A, rx_star isspace]) (strip raw)]) co"
proof -
  from assms(1,2) have n: "\<not> (strip raw = [] \<or> is_noise (strip raw))" by simp
  show ?thesis
    by (simp only: classify.simps Let_def n if_False assms(3,4) if_True option.case)
qed

lemma classify_prose_step:
  assumes "strip raw \<noteq> []" "\<not> is_noise (strip raw)" "CORRECT_RE_match (strip raw) = None"
    "\<not> re_match CHOICE_RE (strip raw)"
  shows "classify (raw # rest) q ch co =
     classify rest (q @ (if q \<noteq> [] then [0xA] else []) @ strip raw) ch co"
proof -
  from assms(1,2) have n: "\<not> (strip raw = [] \<or> is_noise (strip raw))" by simp
  show ?thesis
    by (simp only: classify.simps Let_def n if_False assms(3,4) option.case)
qed

lemma classify_step_cases:
  obtains
    (skip) "strip raw = [] \<or> is_noise (strip raw)"
      "classify (raw # rest) q ch co = classify rest q ch co"
  | (correct) t where "strip raw \<noteq> []" "\<not> is_noise (strip raw)"
      "CORRECT_RE_match (strip raw) = Some [t]" "token_ic t"
      "classify (raw # rest) q ch co = classify rest q ch [half_upper t]"
  | (choice) "strip raw \<noteq> []" "\<not> is_noise (strip raw)"
      "CORRECT_RE_match (strip raw) = None" "re_match CHOICE_RE (strip raw)"
      "classify (raw # rest) q ch co =
         classify rest q (ch @ [re_sub_start (rx_cat [rx_lit 0x2A, rx_star isspace]) (strip raw)]) co"
  | (prose) "strip raw \<noteq> []" "\<not> is_noise (strip raw)"
      "CORRECT_RE_match (strip raw) = None" "\<not> re_match CHOICE_RE (strip raw)"
      "classify (raw # rest) q ch co =
         classify rest (q @ (if q \<noteq> [] then [0xA] else []) @ strip raw) ch co"
proof (cases "strip raw = [] \<or> is_noise (strip raw)")
  case True
  then show ?thesis using skip classify_skip by blast
next
  case False
  then have n: "strip raw \<noteq> []" "\<not> is_noise (strip raw)" by blast+
  show ?thesis
  proof (cases "CORRECT_RE_match (strip raw)")
    case (Some g)
    from classify_correct_step [OF n Some, of rest q ch co]
    obtain t where "g = [t]" "token_ic t"
      "classify (raw # rest) q ch co = classify rest q ch [half_upper t]" by blast
    with n Some show ?thesis using correct by blast
  next
    case None
    show ?thesis
    proof (cases "re_match CHOICE_RE (strip raw)")
      case True
      with n None show ?thesis using choice classify_choice_step by blast
    next
      case nc: False
      with n None show ?thesis using prose classify_prose_step by blast
    qed
  qed
qed

lemma classify_correct_inv:
  assumes "classify ls q ch co = Inr (q', ch', co')"
    and "co = [] \<or> (\<exists>c. co = [c] \<and> stored_form c)"
  shows "co' = [] \<or> (\<exists>c. co' = [c] \<and> stored_form c)"
  using assms
proof (induction ls arbitrary: q ch co)
  case Nil
  then show ?case by simp
next
  case (Cons raw rest)
  show ?case
  proof (cases raw rest q ch co rule: classify_step_cases)
    case skip
    with Cons.prems show ?thesis using Cons.IH by metis
  next
    case (correct t)
    from correct(4) have "stored_form (half_upper t)" by (rule token_ic_stored)
    with correct(5) Cons.prems(1) show ?thesis using Cons.IH by metis
  next
    case choice
    with Cons.prems show ?thesis using Cons.IH by metis
  next
    case prose
    with Cons.prems show ?thesis using Cons.IH by metis
  qed
qed

lemma parse_qb_fields:
  assumes "parse_qb text = Inr r"
  shows "\<exists>q. classify (splitlines (fst (split_explanation text))) [] [] [] =
               Inr (q, choices r, correct r) \<and> question r = strip q \<and>
             explanation r = snd (split_explanation text)"
  using assms
  by (auto simp: parse_qb_def split: prod.splits sum.splits)


subsection \<open>The correct answer\<close>

text \<open>
  Claim C2 fails as stated: a correct-answer line whose token is the full-width digit 1
  (U+FF11) stores that full-width digit, since \<^verbatim>\<open>to_half\<close> only converts letters.
\<close>

theorem correct_fullwidth_digit_counterexample:
  "parse_qb [0x6B63, 0x89E3, 0xFF1A, 0xFF11] =
     Inr \<lparr>question = [], choices = [], correct = [0xFF11], explanation = []\<rparr> \<and>
   fullwidth_form 0xFF11"
  by code_simp

text \<open>
  Claim C2, amended. (1) Whenever \<open>correct\<close> is not empty it is a single character that
  upper-casing leaves unchanged, and it is one of A to E, 1 to 5, full-width 1 to 5 or
  circled 1 to 5. (2) A line that reaches the correct-answer test and matches it has a
  one-character token of the accepted class, and the loop stores \<open>half_upper\<close> of it:
  the half-width upper-case letter for a Latin token of either width and case, the token
  itself for a digit, a full-width digit or a circled digit. (3) The line with the
  full-width letter A as token yields "A".
\<close>

theorem correct_field_normalised:
  "(parse_qb text = Inr r \<longrightarrow>
      correct r = [] \<or> (\<exists>c. correct r = [c] \<and> upper_char c = c \<and> stored_form c)) \<and>
   (strip raw \<noteq> [] \<and> \<not> is_noise (strip raw) \<and> CORRECT_RE_match (strip raw) = Some g \<longrightarrow>
      (\<exists>t. g = [t] \<and> token_ic t \<and>
           classify (raw # rest) q ch co = classify rest q ch [half_upper t])) \<and>
   parse_qb [0x6B63, 0x89E3, 0xFF1A, 0xFF21] =
     Inr \<lparr>question = [], choices = [], correct = [0x41], explanation = []\<rparr>"
proof (intro conjI impI)
  assume "parse_qb text = Inr r"
  then obtain q0 where "classify (splitlines (fst (split_explanation text))) [] [] [] =
      Inr (q0, choices r, correct r)"
    using parse_qb_fields by blast
  then have "correct r = [] \<or> (\<exists>c. correct r = [c] \<and> stored_form c)"
    by (rule classify_correct_inv) simp
  then show "correct r = [] \<or> (\<exists>c. correct r = [c] \<and> upper_char c = c \<and> stored_form c)"
    using stored_form_upper by blast
next
  assume "strip raw \<noteq> [] \<and> \<not> is_noise (strip raw) \<and> CORRECT_RE_match (strip raw) = Some g"
  then show "\<exists>t. g = [t] \<and> token_ic t \<and>
      classify (raw # rest) q ch co = classify rest q ch [half_upper t]"
    using classify_correct_step by blast
next
  show "parse_qb [0x6B63, 0x89E3, 0xFF1A, 0xFF21] =
     Inr \<lparr>question = [], choices = [], correct = [0x41], explanation = []\<rparr>"
    by code_simp
qed

theorem correct_field_normalised_witness:
  "parse_qb [0x6B63, 0x89E3, 0xFF1A, 0xFF44] =
     Inr \<lparr>question = [], choices = [], correct = [0x44], explanation = []\<rparr> \<and>
   (\<exists>c. [0x44] = [c] \<and> upper_char c = c \<and> stored_form c) \<and>
   CORRECT_RE_match (strip [0x20, 0x6B63, 0x89E3, 0x20, 0xFF42]) = Some [0xFF42] \<and>
   (\<exists>t. [0xFF42] = [t] \<and> token_ic t \<and>
        classify [[0x20, 0x6B63, 0x89E3, 0x20, 0xFF42]] [] [] [] = classify [] [] [] [half_upper t])"
proof -
  let ?T = "[0x6B63, 0x89E3, 0xFF1A, 0xFF44]"
  let ?R = "\<lparr>question = [], choices = [], correct = [0x44], explanation = []\<rparr>"
  let ?raw = "[0x20, 0x6B63, 0x89E3, 0x20, 0xFF42]"
  have p: "parse_qb ?T = Inr ?R" by code_simp
  have l: "strip ?raw \<noteq> [] \<and> \<not> is_noise (strip ?raw) \<and>
      CORRECT_RE_match (strip ?raw) = Some [0xFF42]" by code_simp
  note th = correct_field_normalised [of ?T ?R ?raw "[0xFF42]" "[]" "[]" "[]" "[]"]
  from th p have "correct ?R = [] \<or> (\<exists>c. correct ?R = [c] \<and> upper_char c = c \<and> stored_form c)"
    by blast
  then have a: "\<exists>c. [0x44] = [c] \<and> upper_char c = c \<and> stored_form c" by simp
  from th l have b: "\<exists>t. [0xFF42] = [t] \<and> token_ic t \<and>
        classify [?raw] [] [] [] = classify [] [] [] [half_upper t]" by blast
  from p a l b show ?thesis by blast
qed

subsection \<open>What the matcher combinators accept\<close>

lemma rx_cat_Nil: "rx_cat [] = rx_eps"
  by (simp add: rx_cat_def)

lemma rx_cat_Cons: "rx_cat (r # rs) = rx_seq r (rx_cat rs)"
  by (simp add: rx_cat_def)

lemma rx_seq_iff: "r \<in> set (rx_seq a b s) \<longleftrightarrow> (\<exists>m \<in> set (a s). r \<in> set (b m))"
  by (simp add: rx_seq_def)

lemma rx_eps_iff: "r \<in> set (rx_eps s) \<longleftrightarrow> r = s"
  by (simp add: rx_eps_def)

lemma rx_lit_iff: "r \<in> set (rx_lit c s) \<longleftrightarrow> s = c # r"
  by (auto simp: rx_lit_def rx_cls_iff)

lemma rx_star_iff: "r \<in> set (rx_star P s) \<longleftrightarrow> (\<exists>w. s = w @ r \<and> (\<forall>c \<in> set w. P c))"
proof (induction s)
  case Nil
  show ?case by auto
next
  case (Cons x xs)
  show ?case
  proof (cases "P x")
    case True
    then show ?thesis
      using Cons by (auto simp: Cons_eq_append_conv)
  next
    case False
    then show ?thesis
      by (auto simp: Cons_eq_append_conv)
  qed
qed

lemma rx_star_hd: "rx_star P s \<noteq> [] \<and> hd (rx_star P s) = dropWhile P s"
  by (induction s) auto

lemma re_match_iff: "re_match p s \<longleftrightarrow> (\<exists>r. r \<in> set (p s))"
  by (cases "p s") (auto simp: re_match_def)

subsection \<open>Choice lines\<close>

lemma token_not_space: "token t \<Longrightarrow> \<not> isspace t"
  unfolding token_def isspace_def by (elim disjE) simp_all

lemma CHOICE_RE_iff:
  "re_match CHOICE_RE line \<longleftrightarrow>
     (\<exists>w t s r. line = 0x2A # w @ t # s # r \<and> (\<forall>c \<in> set w. isspace c) \<and> token t \<and> isspace s)"
proof
  assume "re_match CHOICE_RE line"
  then obtain r where "r \<in> set (CHOICE_RE line)" by (auto simp: re_match_iff)
  then obtain r1 r2 r3 where 1: "r1 \<in> set (rx_lit 0x2A line)"
    and 2: "r2 \<in> set (rx_star isspace r1)" and 3: "r3 \<in> set (rx_cls token r2)"
    and 4: "r \<in> set (rx_cls isspace r3)"
    unfolding CHOICE_RE_def rx_cat_Cons rx_cat_Nil rx_seq_iff rx_eps_iff by blast
  from 1 have l: "line = 0x2A # r1" by (simp add: rx_lit_iff)
  from 2 obtain w where w: "r1 = w @ r2" "\<forall>c \<in> set w. isspace c" by (auto simp: rx_star_iff)
  from 3 obtain t where t: "r2 = t # r3" "token t" by (auto simp: rx_cls_iff)
  from 4 obtain s where s: "r3 = s # r" "isspace s" by (auto simp: rx_cls_iff)
  from l w t s show "\<exists>w t s r. line = 0x2A # w @ t # s # r \<and> (\<forall>c \<in> set w. isspace c) \<and>
      token t \<and> isspace s" by blast
next
  assume "\<exists>w t s r. line = 0x2A # w @ t # s # r \<and> (\<forall>c \<in> set w. isspace c) \<and>
      token t \<and> isspace s"
  then obtain w t s r where l: "line = 0x2A # w @ t # s # r" and w: "\<forall>c \<in> set w. isspace c"
    and t: "token t" and s: "isspace s" by blast
  have 1: "w @ t # s # r \<in> set (rx_lit 0x2A line)" using l by (simp add: rx_lit_iff)
  have 2: "t # s # r \<in> set (rx_star isspace (w @ t # s # r))" using w by (auto simp: rx_star_iff)
  have 3: "s # r \<in> set (rx_cls token (t # s # r))" using t by (simp add: rx_cls_iff)
  have 4: "r \<in> set (rx_cls isspace (s # r))" using s by (simp add: rx_cls_iff)
  from 1 2 3 4 have "r \<in> set (CHOICE_RE line)"
    unfolding CHOICE_RE_def rx_cat_Cons rx_cat_Nil rx_seq_iff rx_eps_iff by blast
  then show "re_match CHOICE_RE line" by (auto simp: re_match_iff)
qed

lemma CHOICE_RE_dropWhile:
  "re_match CHOICE_RE line \<longleftrightarrow>
     (case line of
        [] \<Rightarrow> False
      | c # r \<Rightarrow> c = 0x2A \<and>
          (case dropWhile isspace r of
             t # s # _ \<Rightarrow> token t \<and> isspace s
           | _ \<Rightarrow> False))"
proof
  assume "re_match CHOICE_RE line"
  then obtain w t s r where l: "line = 0x2A # w @ t # s # r" and w: "\<forall>c \<in> set w. isspace c"
    and t: "token t" and s: "isspace s" unfolding CHOICE_RE_iff by blast
  from t have "\<not> isspace t" by (rule token_not_space)
  with w have "dropWhile isspace (w @ t # s # r) = t # s # r"
    by (simp add: dropWhile_append3)
  with l t s show "case line of [] \<Rightarrow> False | c # r \<Rightarrow> c = 0x2A \<and>
      (case dropWhile isspace r of t # s # _ \<Rightarrow> token t \<and> isspace s | _ \<Rightarrow> False)"
    by simp
next
  assume a: "case line of [] \<Rightarrow> False | c # r \<Rightarrow> c = 0x2A \<and>
      (case dropWhile isspace r of t # s # _ \<Rightarrow> token t \<and> isspace s | _ \<Rightarrow> False)"
  then obtain r1 where l: "line = 0x2A # r1" by (cases line) auto
  with a obtain t s r where d: "dropWhile isspace r1 = t # s # r" and ts: "token t" "isspace s"
    by (auto split: list.splits)
  have "r1 = takeWhile isspace r1 @ dropWhile isspace r1" by simp
  with d have "r1 = takeWhile isspace r1 @ t # s # r" by simp
  moreover have "\<forall>c \<in> set (takeWhile isspace r1). isspace c" by (auto dest: set_takeWhileD)
  ultimately show "re_match CHOICE_RE line" unfolding CHOICE_RE_iff using l ts by blast
qed

lemma enumerator_iff: "enumerator t \<longleftrightarrow> token t \<or> (0xFF21 \<le> t \<and> t \<le> 0xFF25)"
proof
  assume "enumerator t"
  then show "token t \<or> (0xFF21 \<le> t \<and> t \<le> 0xFF25)"
    unfolding enumerator_def by (elim disjE) (simp_all add: token_def)
next
  assume "token t \<or> (0xFF21 \<le> t \<and> t \<le> 0xFF25)"
  then show "enumerator t"
    unfolding token_def by (elim disjE) (simp_all add: enumerator_def)
qed

lemma choice_form_iff:
  assumes "\<not> fullwidth_upper_enumerator line"
  shows "re_match CHOICE_RE line \<longleftrightarrow> choice_form line"
proof (cases line)
  case Nil
  then show ?thesis by (simp add: CHOICE_RE_dropWhile choice_form_def)
next
  case (Cons c r)
  show ?thesis
  proof (cases "dropWhile isspace r")
    case Nil
    with Cons show ?thesis
      by (simp add: CHOICE_RE_dropWhile choice_form_def del: dropWhile_eq_Nil_conv)
  next
    case d: (Cons t r')
    with assms Cons have "\<not> (0xFF21 \<le> t \<and> t \<le> 0xFF25)"
      by (simp add: fullwidth_upper_enumerator_def)
    then have "enumerator t \<longleftrightarrow> token t" unfolding enumerator_iff by blast
    with Cons d show ?thesis
      by (cases r') (simp_all add: CHOICE_RE_dropWhile choice_form_def)
  qed
qed

lemma concat_map_eps: "concat (map rx_eps xs) = xs"
  by (induction xs) (simp_all add: rx_eps_def)

lemma re_sub_marker:
  "re_sub_start (rx_cat [rx_lit 0x2A, rx_star isspace]) (0x2A # r) = dropWhile isspace r"
proof -
  have "rx_cat [rx_lit 0x2A, rx_star isspace] (0x2A # r) = rx_star isspace r"
    by (simp add: rx_cat_Cons rx_cat_Nil rx_seq_def rx_lit_def rx_cls_def concat_map_eps)
  moreover have "rx_star isspace r \<noteq> [] \<and> hd (rx_star isspace r) = dropWhile isspace r"
    by (rule rx_star_hd)
  ultimately show ?thesis
    by (cases "rx_star isspace r") (simp_all add: re_sub_start_def)
qed

lemma CORRECT_RE_match_hd:
  assumes "CORRECT_RE_match s = Some g"
  shows "\<exists>r. s = 0x6B63 # r"
proof -
  let ?gs = "concat (map (\<lambda>r. map (\<lambda>r'. take (length r - length r') r) (CORRECT_RE_group r))
                       (CORRECT_RE_head s))"
  from assms obtain gs where "?gs = g # gs"
    by (auto simp: CORRECT_RE_match_def split: list.splits)
  then have "g \<in> set ?gs"
    by (simp del: set_concat)
  then obtain r where "r \<in> set (CORRECT_RE_head s)" by auto
  then obtain r1 where "r1 \<in> set (rx_lit 0x6B63 s)"
    by (auto simp: CORRECT_RE_head_def rx_str_def rx_cat_Cons rx_seq_iff)
  then show ?thesis by (simp add: rx_lit_iff)
qed

lemma choice_not_correct:
  assumes "re_match CHOICE_RE line"
  shows "CORRECT_RE_match line = None"
proof (cases "CORRECT_RE_match line")
  case None
  then show ?thesis .
next
  case (Some g)
  then obtain r where "line = 0x6B63 # r" using CORRECT_RE_match_hd by blast
  moreover from assms obtain r' where "line = 0x2A # r'" unfolding CHOICE_RE_iff by blast
  ultimately show ?thesis by simp
qed

lemma classify_choice_line:
  assumes "strip raw \<noteq> []" "\<not> is_noise (strip raw)" "re_match CHOICE_RE (strip raw)"
  shows "classify (raw # rest) q ch co =
           classify rest q (ch @ [dropWhile isspace (tl (strip raw))]) co"
proof -
  from assms(3) have c: "CORRECT_RE_match (strip raw) = None" by (rule choice_not_correct)
  from assms(3) obtain r where r: "strip raw = 0x2A # r" unfolding CHOICE_RE_iff by blast
  then have "re_sub_start (rx_cat [rx_lit 0x2A, rx_star isspace]) (strip raw) =
      dropWhile isspace (tl (strip raw))" by (simp add: re_sub_marker)
  with classify_choice_step [OF assms(1,2) c assms(3), of rest q ch co] show ?thesis by simp
qed

lemma classify_other_line:
  assumes "strip raw = [] \<or> is_noise (strip raw) \<or> \<not> re_match CHOICE_RE (strip raw)"
  shows "\<exists>q' co'. classify (raw # rest) q ch co = classify rest q' ch co'"
proof (cases raw rest q ch co rule: classify_step_cases)
  case skip
  then show ?thesis by blast
next
  case (correct t)
  then show ?thesis by blast
next
  case choice
  with assms show ?thesis by blast
next
  case prose
  then show ?thesis by blast
qed

text \<open>
  Claim C3 fails as stated, in both directions of its "exactly when". The line
  \<^verbatim>\<open>*a x\<close> has no whitespace after the marker and is appended to \<open>choices\<close>, because
  \<^verbatim>\<open>CHOICE_RE\<close> asks for any number of whitespace characters there, none included.
  The line \<^verbatim>\<open>* a\<close> is the marker, whitespace and one enumerator token, and it goes to
  \<open>question\<close>, because \<^verbatim>\<open>CHOICE_RE\<close> asks for a whitespace character after the token.
\<close>

theorem choice_form_counterexample:
  "parse_qb [0x2A, 0x61, 0x20, 0x78] =
     Inr \<lparr>question = [], choices = [[0x61, 0x20, 0x78]], correct = [], explanation = []\<rparr> \<and>
   \<not> claimed_choice_form [0x2A, 0x61, 0x20, 0x78] \<and>
   parse_qb [0x2A, 0x20, 0x61] =
     Inr \<lparr>question = [0x2A, 0x20, 0x61], choices = [], correct = [], explanation = []\<rparr> \<and>
   claimed_choice_form [0x2A, 0x20, 0x61]"
  by code_simp

text \<open>
  The class of \<^verbatim>\<open>CHOICE_RE\<close> has no full-width upper-case letters, and the pattern is
  compiled without \<^verbatim>\<open>re.IGNORECASE\<close>: a line whose enumerator is the full-width letter A
  (U+FF21) goes to \<open>question\<close>.
\<close>

lemma fullwidth_upper_enumerator_example:
  "parse_qb [0x2A, 0x20, 0xFF21, 0x20, 0x78] =
     Inr \<lparr>question = [0x2A, 0x20, 0xFF21, 0x20, 0x78], choices = [], correct = [],
          explanation = []\<rparr>"
  by code_simp

text \<open>
  Claim C3, amended. (1) For every line whose enumerator is not a full-width upper-case
  letter, the line matches \<^verbatim>\<open>CHOICE_RE\<close> exactly when it consists of the marker
  \<^verbatim>\<open>*\<close>, any number of whitespace characters (possibly none), one enumerator token and
  one whitespace character, followed by anything. (2) A line of the "before" segment whose
  trimmed form is not empty, is no noise and matches \<^verbatim>\<open>CHOICE_RE\<close> is appended to
  \<open>choices\<close>, without the marker and the whitespace after it. (3) Any other line leaves
  \<open>choices\<close> as it is.
\<close>

theorem choice_line_classified:
  "(\<not> fullwidth_upper_enumerator line \<longrightarrow> (re_match CHOICE_RE line \<longleftrightarrow> choice_form line)) \<and>
   (strip raw \<noteq> [] \<and> \<not> is_noise (strip raw) \<and> re_match CHOICE_RE (strip raw) \<longrightarrow>
      classify (raw # rest) q ch co =
        classify rest q (ch @ [dropWhile isspace (tl (strip raw))]) co) \<and>
   (strip raw = [] \<or> is_noise (strip raw) \<or> \<not> re_match CHOICE_RE (strip raw) \<longrightarrow>
      (\<exists>q' co'. classify (raw # rest) q ch co = classify rest q' ch co'))"
  using choice_form_iff classify_choice_line classify_other_line by blast

theorem choice_line_classified_witness:
  "re_match CHOICE_RE [0x2A, 0x20, 0xFF42, 0x20, 0x78] \<and>
   choice_form [0x2A, 0x20, 0xFF42, 0x20, 0x78] \<and>
   classify [[0x20, 0x2A, 0x20, 0xFF42, 0x20, 0x78, 0x20]] [] [] [] =
     classify [] [] [dropWhile isspace (tl (strip [0x20, 0x2A, 0x20, 0xFF42, 0x20, 0x78, 0x20]))] [] \<and>
   (\<exists>q' co'. classify [[0x78, 0x79]] [] [] [] = classify [] q' [] co')"
proof -
  let ?l = "[0x2A, 0x20, 0xFF42, 0x20, 0x78]"
  let ?raw = "[0x20, 0x2A, 0x20, 0xFF42, 0x20, 0x78, 0x20]"
  have 1: "\<not> fullwidth_upper_enumerator ?l" by code_simp
  have 2: "choice_form ?l" by code_simp
  have 3: "strip ?raw \<noteq> [] \<and> \<not> is_noise (strip ?raw) \<and> re_match CHOICE_RE (strip ?raw)"
    by code_simp
  have 4: "strip [0x78, 0x79] = [] \<or> is_noise (strip [0x78, 0x79]) \<or>
      \<not> re_match CHOICE_RE (strip [0x78, 0x79])" by code_simp
  note a = choice_line_classified [of ?l ?raw "[]" "[]" "[]" "[]"]
  note b = choice_line_classified [of ?l "[0x78, 0x79]" "[]" "[]" "[]" "[]"]
  from a 1 2 have "re_match CHOICE_RE ?l" by blast
  moreover from a 3 have "classify [?raw] [] [] [] =
     classify [] [] ([] @ [dropWhile isspace (tl (strip ?raw))]) []" by blast
  then have "classify [?raw] [] [] [] =
     classify [] [] [dropWhile isspace (tl (strip ?raw))] []" by (simp only: append_Nil)
  moreover from b 4 have "\<exists>q' co'. classify [[0x78, 0x79]] [] [] [] = classify [] q' [] co'"
    by blast
  ultimately show ?thesis using 2 by blast
qed

subsection \<open>The choices\<close>

lemma classify_choices:
  assumes "classify ls q ch co = Inr (q', ch', co')"
  shows "ch' = ch @ map without_marker (filter choice_line (map strip ls))"
  using assms
proof (induction ls arbitrary: q ch co)
  case Nil
  then show ?case by simp
next
  case (Cons raw rest)
  show ?case
  proof (cases raw rest q ch co rule: classify_step_cases)
    case skip
    then have "\<not> choice_line (strip raw)" by (auto simp: choice_line_def)
    moreover from skip Cons.prems have "classify rest q ch co = Inr (q', ch', co')" by simp
    ultimately show ?thesis using Cons.IH by simp
  next
    case (correct t)
    then have "\<not> choice_line (strip raw)" by (simp add: choice_line_def)
    moreover from correct Cons.prems
    have "classify rest q ch [half_upper t] = Inr (q', ch', co')" by simp
    ultimately show ?thesis using Cons.IH by simp
  next
    case choice
    then have c: "choice_line (strip raw)" by (simp add: choice_line_def)
    from choice(1,2,4) have "classify (raw # rest) q ch co =
        classify rest q (ch @ [without_marker (strip raw)]) co"
      unfolding without_marker_def by (rule classify_choice_line)
    with Cons.prems have "classify rest q (ch @ [without_marker (strip raw)]) co =
        Inr (q', ch', co')" by simp
    then have "ch' = (ch @ [without_marker (strip raw)]) @
        map without_marker (filter choice_line (map strip rest))" by (rule Cons.IH)
    with c show ?thesis by simp
  next
    case prose
    then have "\<not> choice_line (strip raw)" by (simp add: choice_line_def)
    moreover from prose Cons.prems
    have "classify rest (q @ (if q \<noteq> [] then [0xA] else []) @ strip raw) ch co =
        Inr (q', ch', co')" by simp
    ultimately show ?thesis using Cons.IH by simp
  qed
qed

lemma choice_line_shape:
  assumes "choice_line l"
  shows "hd l = 0x2A \<and> without_marker l \<noteq> [] \<and> token (hd (without_marker l))"
proof -
  from assms have "re_match CHOICE_RE l" by (simp add: choice_line_def)
  then obtain w t s r where l: "l = 0x2A # w @ t # s # r" and w: "\<forall>c \<in> set w. isspace c"
    and t: "token t" unfolding CHOICE_RE_iff by blast
  from t have "\<not> isspace t" by (rule token_not_space)
  with w have "dropWhile isspace (w @ t # s # r) = t # s # r"
    by (simp add: dropWhile_append3)
  with l t show ?thesis by (simp add: without_marker_def)
qed

text \<open>
  Claim C5. The returned \<open>choices\<close> are, in source order, the trimmed lines of the
  "before" segment that are not empty, are no noise, do not match the correct-answer
  pattern and match the choice-line pattern, each without its marker and the whitespace
  after it; so there are as many entries as such lines. Every such line starts with the
  marker, and what remains of it starts with its enumerator token.
\<close>

theorem choices_are_choice_lines:
  assumes "parse_qb text = Inr r"
  shows "length (choices r) = length (filter choice_line (before_lines text)) \<and>
         choices r = map without_marker (filter choice_line (before_lines text)) \<and>
         (\<forall>l \<in> set (filter choice_line (before_lines text)).
            hd l = 0x2A \<and> without_marker l \<noteq> [] \<and> token (hd (without_marker l)))"
proof -
  from assms obtain q where
    "classify (splitlines (fst (split_explanation text))) [] [] [] = Inr (q, choices r, correct r)"
    using parse_qb_fields by blast
  then have "choices r = [] @ map without_marker (filter choice_line (before_lines text))"
    unfolding before_lines_def by (rule classify_choices)
  then have c: "choices r = map without_marker (filter choice_line (before_lines text))" by simp
  then have "length (choices r) = length (filter choice_line (before_lines text))" by simp
  with c show ?thesis using choice_line_shape by simp
qed

theorem choices_are_choice_lines_witness:
  "length (choices \<lparr>question = [0x51], choices = [[0x61, 0x20, 0x78], [0x31, 0x20, 0x79]],
                    correct = [], explanation = []\<rparr>) =
     length (filter choice_line (before_lines
       [0x51, 0xA, 0x2A, 0x20, 0x61, 0x20, 0x78, 0xA, 0x2A, 0x20, 0x31, 0x20, 0x79])) \<and>
   [[0x61, 0x20, 0x78], [0x31, 0x20, 0x79]] =
     map without_marker (filter choice_line (before_lines
       [0x51, 0xA, 0x2A, 0x20, 0x61, 0x20, 0x78, 0xA, 0x2A, 0x20, 0x31, 0x20, 0x79])) \<and>
   filter choice_line (before_lines
       [0x51, 0xA, 0x2A, 0x20, 0x61, 0x20, 0x78, 0xA, 0x2A, 0x20, 0x31, 0x20, 0x79]) =
     [[0x2A, 0x20, 0x61, 0x20, 0x78], [0x2A, 0x20, 0x31, 0x20, 0x79]]"
proof -
  let ?T = "[0x51, 0xA, 0x2A, 0x20, 0x61, 0x20, 0x78, 0xA, 0x2A, 0x20, 0x31, 0x20, 0x79]"
  let ?R = "\<lparr>question = [0x51], choices = [[0x61, 0x20, 0x78], [0x31, 0x20, 0x79]],
             correct = [], explanation = []\<rparr>"
  have p: "parse_qb ?T = Inr ?R" by code_simp
  have f: "filter choice_line (before_lines ?T) =
     [[0x2A, 0x20, 0x61, 0x20, 0x78], [0x2A, 0x20, 0x31, 0x20, 0x79]]" by code_simp
  from choices_are_choice_lines [OF p]
  have "length (choices ?R) = length (filter choice_line (before_lines ?T))"
    and "choices ?R = map without_marker (filter choice_line (before_lines ?T))" by blast+
  with f show ?thesis by simp
qed


subsection \<open>Lines, trimming and joining\<close>

lemma not_linebreak_CR: "\<not> linebreak c \<Longrightarrow> c \<noteq> 0xD"
  by (auto simp: linebreak_def)

lemma linebreak_LF: "linebreak 0xA"
  by (simp add: linebreak_def)

lemma splitlines_from_no_break:
  "l \<in> set (splitlines_from cur s) \<Longrightarrow> \<forall>c \<in> set cur. \<not> linebreak c \<Longrightarrow>
   \<forall>c \<in> set l. \<not> linebreak c"
proof (induction s arbitrary: cur rule: length_induct)
  case (1 s)
  show ?case
  proof (cases s)
    case Nil
    with 1 show ?thesis by (auto split: if_splits)
  next
    case (Cons c cs)
    consider (crlf) "c = 0xD \<and> cs \<noteq> [] \<and> hd cs = 0xA"
      | (brk) "\<not> (c = 0xD \<and> cs \<noteq> [] \<and> hd cs = 0xA)" "linebreak c"
      | (chr) "\<not> (c = 0xD \<and> cs \<noteq> [] \<and> hd cs = 0xA)" "\<not> linebreak c" by blast
    then show ?thesis
    proof cases
      case crlf
      with 1(2) Cons have "l = cur \<or> l \<in> set (splitlines_from [] (tl cs))" by simp
      then show ?thesis
      proof
        assume "l = cur" with 1(3) show ?thesis by simp
      next
        assume a: "l \<in> set (splitlines_from [] (tl cs))"
        have "length (tl cs) < length s" using Cons by simp
        with 1(1) a show ?thesis by fastforce
      qed
    next
      case brk
      with 1(2) Cons have "l = cur \<or> l \<in> set (splitlines_from [] cs)" by simp
      then show ?thesis
      proof
        assume "l = cur" with 1(3) show ?thesis by simp
      next
        assume a: "l \<in> set (splitlines_from [] cs)"
        have "length cs < length s" using Cons by simp
        with 1(1) a show ?thesis by fastforce
      qed
    next
      case chr
      with 1(2) Cons have a: "l \<in> set (splitlines_from (cur @ [c]) cs)" by simp
      have "length cs < length s" using Cons by simp
      moreover from chr 1(3) have "\<forall>x \<in> set (cur @ [c]). \<not> linebreak x" by simp
      ultimately show ?thesis using 1(1) a by blast
    qed
  qed
qed

lemma splitlines_no_break: "l \<in> set (splitlines s) \<Longrightarrow> \<forall>c \<in> set l. \<not> linebreak c"
  unfolding splitlines_def using splitlines_from_no_break [of l "[]" s] by simp

lemma last_dropWhile: "dropWhile P xs \<noteq> [] \<Longrightarrow> last (dropWhile P xs) = last xs"
  by (induction xs) (auto split: if_splits)

lemma set_strip: "set (strip s) \<subseteq> set s"
proof -
  have "set (strip s) = set (dropWhile isspace (rev (dropWhile isspace s)))"
    by (simp add: strip_def)
  also have "\<dots> \<subseteq> set (rev (dropWhile isspace s))" by (auto dest: set_dropWhileD)
  also have "\<dots> \<subseteq> set s" by (auto dest: set_dropWhileD)
  finally show ?thesis .
qed

lemma strip_trimmed: "strip s \<noteq> [] \<Longrightarrow> trimmed (strip s)"
proof -
  assume n: "strip s \<noteq> []"
  let ?d = "dropWhile isspace s"
  let ?e = "dropWhile isspace (rev ?d)"
  from n have e: "?e \<noteq> []" by (simp add: strip_def)
  then have d: "?d \<noteq> []" by (metis dropWhile.simps(1) rev.simps(1))
  have "last (strip s) = hd ?e" using e by (simp add: strip_def last_rev)
  moreover have "\<not> isspace (hd ?e)" using e by (rule hd_dropWhile)
  moreover have "hd (strip s) = last ?e" using e by (simp add: strip_def hd_rev)
  moreover have "last ?e = last (rev ?d)" using e by (rule last_dropWhile)
  moreover have "last (rev ?d) = hd ?d" using d by (simp add: last_rev)
  moreover have "\<not> isspace (hd ?d)" using d by (rule hd_dropWhile)
  ultimately show ?thesis using n by (simp add: trimmed_def)
qed

lemma trimmed_strip: "trimmed s \<Longrightarrow> strip s = s"
proof -
  assume t: "trimmed s"
  then obtain x xs where s: "s = x # xs" by (cases s) (auto simp: trimmed_def)
  with t have 1: "dropWhile isspace s = s" by (simp add: trimmed_def)
  from t have "rev s \<noteq> []" "\<not> isspace (hd (rev s))" by (simp_all add: trimmed_def hd_rev)
  then have "dropWhile isspace (rev s) = rev s" by (cases "rev s") auto
  with 1 show ?thesis by (simp add: strip_def)
qed

lemma strip_strip: "strip (strip s) = strip s"
proof (cases "strip s = []")
  case True
  have "strip [] = []" by (simp add: strip_def)
  with True show ?thesis by simp
next
  case False
  then show ?thesis using strip_trimmed trimmed_strip by blast
qed

lemma join_nl_snoc:
  "join_nl (qs @ [l]) = join_nl qs @ (if qs \<noteq> [] then [0xA] else []) @ l"
  by (induction qs rule: join_nl.induct) simp_all

lemma join_nl_Nil_iff: "\<forall>x \<in> set qs. x \<noteq> [] \<Longrightarrow> join_nl qs = [] \<longleftrightarrow> qs = []"
  by (induction qs rule: join_nl.induct) simp_all

lemma join_nl_Cons_Nil: "join_nl (m # ls) = [] \<longleftrightarrow> m = [] \<and> ls = []"
  by (cases ls) simp_all

lemma join_nl_hd: "qs \<noteq> [] \<Longrightarrow> hd qs \<noteq> [] \<Longrightarrow> hd (join_nl qs) = hd (hd qs)"
  by (induction qs rule: join_nl.induct) simp_all

lemma join_nl_last: "qs \<noteq> [] \<Longrightarrow> last qs \<noteq> [] \<Longrightarrow> last (join_nl qs) = last (last qs)"
  by (induction qs rule: join_nl.induct) (auto simp: join_nl_Cons_Nil)

lemma join_nl_trimmed:
  assumes "qs \<noteq> []" "\<forall>x \<in> set qs. trimmed x"
  shows "trimmed (join_nl qs)"
proof -
  from assms have h: "trimmed (hd qs)" and l: "trimmed (last qs)" by simp_all
  from assms have "\<forall>x \<in> set qs. x \<noteq> []" by (auto simp: trimmed_def)
  with assms(1) have "join_nl qs \<noteq> []" by (simp add: join_nl_Nil_iff)
  moreover from h assms(1) have "hd (join_nl qs) = hd (hd qs)" by (simp add: join_nl_hd trimmed_def)
  moreover from l assms(1) have "last (join_nl qs) = last (last qs)"
    by (simp add: join_nl_last trimmed_def)
  ultimately show ?thesis using h l by (simp add: trimmed_def)
qed

lemma splitlines_from_append:
  "\<forall>c \<in> set l. \<not> linebreak c \<Longrightarrow> splitlines_from cur (l @ rest) = splitlines_from (cur @ l) rest"
proof (induction l arbitrary: cur)
  case Nil
  show ?case by simp
next
  case (Cons c l)
  then have "\<not> linebreak c" by simp
  then have "c \<noteq> 0xD" by (rule not_linebreak_CR)
  with \<open>\<not> linebreak c\<close> have "splitlines_from cur ((c # l) @ rest) = splitlines_from (cur @ [c]) (l @ rest)"
    by simp
  also have "\<dots> = splitlines_from ((cur @ [c]) @ l) rest" using Cons by simp
  finally show ?case by simp
qed

lemma splitlines_from_join_nl:
  assumes "\<forall>x \<in> set qs. x \<noteq> [] \<and> (\<forall>c \<in> set x. \<not> linebreak c)"
  shows "splitlines_from [] (join_nl qs) = qs"
  using assms
proof (induction qs rule: join_nl.induct)
  case 1
  show ?case by simp
next
  case (2 l)
  then have "splitlines_from [] (l @ []) = splitlines_from ([] @ l) []"
    by (intro splitlines_from_append) simp
  with 2 show ?case by simp
next
  case (3 l m ls)
  then have "splitlines_from [] (l @ 0xA # join_nl (m # ls)) =
      splitlines_from ([] @ l) (0xA # join_nl (m # ls))"
    by (intro splitlines_from_append) simp
  also have "\<dots> = l # splitlines_from [] (join_nl (m # ls))"
    by (simp add: linebreak_LF)
  also have "\<dots> = l # m # ls" using 3 by simp
  finally show ?case by simp
qed

lemma classify_question:
  assumes "classify ls (join_nl qs) ch co = Inr (q', ch', co')"
    and "\<forall>x \<in> set qs. x \<noteq> []"
  shows "q' = join_nl (qs @ filter prose_line (map strip ls))"
  using assms
proof (induction ls arbitrary: qs ch co)
  case Nil
  then show ?case by simp
next
  case (Cons raw rest)
  show ?case
  proof (cases raw rest "join_nl qs" ch co rule: classify_step_cases)
    case skip
    then have "\<not> prose_line (strip raw)" by (auto simp: prose_line_def)
    moreover from skip Cons.prems have "classify rest (join_nl qs) ch co = Inr (q', ch', co')"
      by simp
    then have "q' = join_nl (qs @ filter prose_line (map strip rest))"
      using Cons.prems(2) by (rule Cons.IH)
    ultimately show ?thesis by simp
  next
    case (correct t)
    then have "\<not> prose_line (strip raw)" by (simp add: prose_line_def)
    moreover from correct Cons.prems
    have "classify rest (join_nl qs) ch [half_upper t] = Inr (q', ch', co')" by simp
    then have "q' = join_nl (qs @ filter prose_line (map strip rest))"
      using Cons.prems(2) by (rule Cons.IH)
    ultimately show ?thesis by simp
  next
    case choice
    then have "\<not> prose_line (strip raw)" by (simp add: prose_line_def)
    moreover from choice Cons.prems
    have "classify rest (join_nl qs)
        (ch @ [re_sub_start (rx_cat [rx_lit 0x2A, rx_star isspace]) (strip raw)]) co =
        Inr (q', ch', co')" by simp
    then have "q' = join_nl (qs @ filter prose_line (map strip rest))"
      using Cons.prems(2) by (rule Cons.IH)
    ultimately show ?thesis by simp
  next
    case prose
    then have p: "prose_line (strip raw)" by (simp add: prose_line_def)
    from Cons.prems(2) have "join_nl qs \<noteq> [] \<longleftrightarrow> qs \<noteq> []" by (simp add: join_nl_Nil_iff)
    then have "join_nl qs @ (if join_nl qs \<noteq> [] then [0xA] else []) @ strip raw =
        join_nl (qs @ [strip raw])" by (simp add: join_nl_snoc)
    with prose Cons.prems(1)
    have "classify rest (join_nl (qs @ [strip raw])) ch co = Inr (q', ch', co')" by simp
    moreover from Cons.prems(2) prose(1) have "\<forall>x \<in> set (qs @ [strip raw]). x \<noteq> []" by simp
    ultimately have "q' = join_nl ((qs @ [strip raw]) @ filter prose_line (map strip rest))"
      by (rule Cons.IH)
    with p show ?thesis by simp
  qed
qed

lemma before_lines_trimmed:
  assumes "l \<in> set (before_lines text)" "l \<noteq> []"
  shows "trimmed l \<and> (\<forall>c \<in> set l. \<not> linebreak c)"
proof -
  from assms(1) obtain raw where raw: "raw \<in> set (splitlines (fst (split_explanation text)))"
    and l: "l = strip raw" by (auto simp: before_lines_def)
  from raw have "\<forall>c \<in> set raw. \<not> linebreak c" by (rule splitlines_no_break)
  with l have "\<forall>c \<in> set l. \<not> linebreak c" using set_strip by blast
  moreover from assms(2) l have "trimmed l" using strip_trimmed by simp
  ultimately show ?thesis by simp
qed

lemma question_prose_lines:
  assumes "parse_qb text = Inr r"
  shows "question r = join_nl (filter prose_line (before_lines text)) \<and>
         splitlines (question r) = filter prose_line (before_lines text)"
proof -
  let ?ps = "filter prose_line (before_lines text)"
  from assms obtain q where
    c: "classify (splitlines (fst (split_explanation text))) (join_nl []) [] [] =
          Inr (q, choices r, correct r)" and qr: "question r = strip q"
    using parse_qb_fields by fastforce
  from c have q: "q = join_nl ([] @ ?ps)"
    unfolding before_lines_def by (rule classify_question) simp
  have t: "\<forall>x \<in> set ?ps. trimmed x \<and> (\<forall>c \<in> set x. \<not> linebreak c)"
    using before_lines_trimmed by (auto simp: prose_line_def)
  have "strip (join_nl ?ps) = join_nl ?ps"
  proof (cases "?ps = []")
    case True
    then show ?thesis by (simp add: strip_def)
  next
    case False
    with t have "trimmed (join_nl ?ps)" by (intro join_nl_trimmed) simp_all
    then show ?thesis by (rule trimmed_strip)
  qed
  with q qr have 1: "question r = join_nl ?ps" by simp
  from t have "\<forall>x \<in> set ?ps. x \<noteq> [] \<and> (\<forall>c \<in> set x. \<not> linebreak c)"
    by (auto simp: trimmed_def)
  then have "splitlines_from [] (join_nl ?ps) = ?ps" by (rule splitlines_from_join_nl)
  with 1 show ?thesis by (simp add: splitlines_def)
qed

lemma is_noise_trimmed:
  "trimmed l \<Longrightarrow> is_noise l \<longleftrightarrow> list_ex (\<lambda>p. re_match p l) NOISE_PATTERNS"
  by (simp add: is_noise_def trimmed_strip)

lemma classify_filter_noise:
  "classify ls q ch co = classify (filter (\<lambda>raw. \<not> is_noise (strip raw)) ls) q ch co"
proof (induction ls arbitrary: q ch co)
  case Nil
  show ?case by simp
next
  case (Cons raw rest)
  show ?case
  proof (cases "is_noise (strip raw)")
    case True
    then have "classify (raw # rest) q ch co = classify rest q ch co"
      by (simp add: classify_skip)
    with True Cons show ?thesis by simp
  next
    case False
    have "classify (raw # rest) q ch co =
        classify (raw # filter (\<lambda>raw. \<not> is_noise (strip raw)) rest) q ch co"
    proof (cases raw rest q ch co rule: classify_step_cases)
      case skip
      with False have e: "strip raw = []" by simp
      then have "classify (raw # filter (\<lambda>raw. \<not> is_noise (strip raw)) rest) q ch co =
          classify (filter (\<lambda>raw. \<not> is_noise (strip raw)) rest) q ch co"
        by (simp add: classify_skip)
      with skip(2) Cons show ?thesis by simp
    next
      case (correct t)
      from classify_correct_step [OF correct(1,2,3)] correct(5) Cons show ?thesis
        by (metis list.inject)
    next
      case choice
      from classify_choice_step [OF choice(1,2,3,4)] choice(5) Cons show ?thesis by metis
    next
      case prose
      from classify_prose_step [OF prose(1,2,3,4)] prose(5) Cons show ?thesis by metis
    qed
    with False show ?thesis by simp
  qed
qed


subsection \<open>The question\<close>

text \<open>
  Claim C6. (1) The returned \<open>question\<close> is the trimmed lines of the "before" segment
  that are not empty, are no noise and match neither the correct-answer pattern nor the
  choice-line pattern, joined by line feeds; splitting it into lines gives these lines
  back, and none of them matches a noise pattern, \<^verbatim>\<open>CHOICE_RE\<close> or
  \<^verbatim>\<open>CORRECT_RE\<close>. (2) A line that is noise is skipped by the loop before any other
  test, whatever else it matches. (3) The loop returns the same on a list of lines and on
  that list without its noise lines, so a noise line reaches neither \<open>choices\<close> nor
  \<open>question\<close>.
\<close>

theorem question_lines_are_prose:
  "(parse_qb text = Inr r \<longrightarrow>
      question r = join_nl (filter prose_line (before_lines text)) \<and>
      splitlines (question r) = filter prose_line (before_lines text) \<and>
      (\<forall>l \<in> set (splitlines (question r)).
         \<not> list_ex (\<lambda>p. re_match p l) NOISE_PATTERNS \<and> \<not> is_noise l \<and>
         \<not> re_match CHOICE_RE l \<and> CORRECT_RE_match l = None)) \<and>
   (is_noise (strip raw) \<longrightarrow> classify (raw # rest) q ch co = classify rest q ch co) \<and>
   classify ls q ch co = classify (filter (\<lambda>raw. \<not> is_noise (strip raw)) ls) q ch co"
proof (intro conjI impI)
  assume p: "parse_qb text = Inr r"
  then show 1: "question r = join_nl (filter prose_line (before_lines text))"
    and 2: "splitlines (question r) = filter prose_line (before_lines text)"
    using question_prose_lines by blast+
  show "\<forall>l \<in> set (splitlines (question r)).
         \<not> list_ex (\<lambda>p. re_match p l) NOISE_PATTERNS \<and> \<not> is_noise l \<and>
         \<not> re_match CHOICE_RE l \<and> CORRECT_RE_match l = None"
  proof
    fix l assume "l \<in> set (splitlines (question r))"
    with 2 have m: "l \<in> set (before_lines text)" and pl: "prose_line l" by simp_all
    from pl have "l \<noteq> []" by (simp add: prose_line_def)
    with m have "trimmed l" using before_lines_trimmed by blast
    then have "is_noise l \<longleftrightarrow> list_ex (\<lambda>p. re_match p l) NOISE_PATTERNS"
      by (rule is_noise_trimmed)
    with pl show "\<not> list_ex (\<lambda>p. re_match p l) NOISE_PATTERNS \<and> \<not> is_noise l \<and>
         \<not> re_match CHOICE_RE l \<and> CORRECT_RE_match l = None"
      by (simp add: prose_line_def)
  qed
next
  assume "is_noise (strip raw)"
  then show "classify (raw # rest) q ch co = classify rest q ch co"
    by (simp add: classify_skip)
next
  show "classify ls q ch co = classify (filter (\<lambda>raw. \<not> is_noise (strip raw)) ls) q ch co"
    by (rule classify_filter_noise)
qed

text \<open>
  An instance: the second line, \<^verbatim>\<open>* a\<close> followed by U+25CB U+6B63 U+89E3, is noise
  and matches \<^verbatim>\<open>CHOICE_RE\<close>.
\<close>

theorem question_lines_are_prose_witness:
  "parse_qb [0x51, 0xA, 0x2A, 0x20, 0x61, 0x20, 0x25CB, 0x6B63, 0x89E3, 0xA,
             0x2A, 0x20, 0x62, 0x20, 0x78, 0xA, 0x6B63, 0x89E3, 0xFF1A, 0x63, 0xA, 0x52] =
     Inr \<lparr>question = [0x51, 0xA, 0x52], choices = [[0x62, 0x20, 0x78]], correct = [0x43],
          explanation = []\<rparr> \<and>
   splitlines [0x51, 0xA, 0x52] = [[0x51], [0x52]] \<and>
   \<not> list_ex (\<lambda>p. re_match p [0x52]) NOISE_PATTERNS \<and>
   \<not> re_match CHOICE_RE [0x52] \<and> CORRECT_RE_match [0x52] = None \<and>
   is_noise (strip [0x2A, 0x20, 0x61, 0x20, 0x25CB, 0x6B63, 0x89E3]) \<and>
   re_match CHOICE_RE (strip [0x2A, 0x20, 0x61, 0x20, 0x25CB, 0x6B63, 0x89E3]) \<and>
   classify [[0x2A, 0x20, 0x61, 0x20, 0x25CB, 0x6B63, 0x89E3]] [] [] [] = classify [] [] [] []"
proof -
  let ?T = "[0x51, 0xA, 0x2A, 0x20, 0x61, 0x20, 0x25CB, 0x6B63, 0x89E3, 0xA,
             0x2A, 0x20, 0x62, 0x20, 0x78, 0xA, 0x6B63, 0x89E3, 0xFF1A, 0x63, 0xA, 0x52]"
  let ?R = "\<lparr>question = [0x51, 0xA, 0x52], choices = [[0x62, 0x20, 0x78]], correct = [0x43],
          explanation = []\<rparr>"
  let ?L = "[0x2A, 0x20, 0x61, 0x20, 0x25CB, 0x6B63, 0x89E3]"
  have p: "parse_qb ?T = Inr ?R" by code_simp
  have s: "splitlines [0x51, 0xA, 0x52] = [[0x51], [0x52]]" by code_simp
  have n: "is_noise (strip ?L)" by code_simp
  have c: "re_match CHOICE_RE (strip ?L)" by code_simp
  note th = question_lines_are_prose [of ?T ?R ?L "[]" "[]" "[]" "[]" "[]"]
  from th p have "\<forall>l \<in> set (splitlines (question ?R)).
         \<not> list_ex (\<lambda>p. re_match p l) NOISE_PATTERNS \<and> \<not> is_noise l \<and>
         \<not> re_match CHOICE_RE l \<and> CORRECT_RE_match l = None" by blast
  with s have a: "\<not> list_ex (\<lambda>p. re_match p [0x52]) NOISE_PATTERNS \<and>
      \<not> re_match CHOICE_RE [0x52] \<and> CORRECT_RE_match [0x52] = None" by simp
  from th n have b: "classify [?L] [] [] [] = classify [] [] [] []" by blast
  from p s a n c b show ?thesis by blast
qed

subsection \<open>Trimming of the lines\<close>

lemma classify_strip: "classify ls q ch co = classify (map strip ls) q ch co"
proof (induction ls arbitrary: q ch co)
  case Nil
  show ?case by simp
next
  case (Cons raw rest)
  show ?case
    by (simp only: classify.simps list.map strip_strip Let_def Cons.IH [symmetric])
qed

lemma choice_trimmed:
  assumes "choice_line l" "trimmed l"
  shows "trimmed (without_marker l)"
proof -
  from assms(1) have "re_match CHOICE_RE l" by (simp add: choice_line_def)
  then obtain w t s r where l: "l = 0x2A # w @ t # s # r" and w: "\<forall>c \<in> set w. isspace c"
    and t: "token t" unfolding CHOICE_RE_iff by blast
  from t have ns: "\<not> isspace t" by (rule token_not_space)
  with w have "dropWhile isspace (w @ t # s # r) = t # s # r"
    by (simp add: dropWhile_append3)
  with l have wm: "without_marker l = t # s # r" by (simp add: without_marker_def)
  from l have "last l = last (t # s # r)" by simp
  with assms(2) have "\<not> isspace (last (t # s # r))" by (simp add: trimmed_def)
  with wm ns show ?thesis by (simp add: trimmed_def)
qed

text \<open>
  Claim C9. (1) The loop only ever looks at the trimmed form of a line: it returns the
  same on a list of lines and on the list of their trimmed forms. (2) Every line of the
  returned \<open>question\<close> and every entry of \<open>choices\<close> is not empty and neither starts
  nor ends with a whitespace character. (3) When the marker is found, \<open>explanation\<close>
  is the join of the kept lines of the "after" segment as they are, untrimmed, and only
  the joined text is trimmed; for the "after" lines \<^verbatim>\<open> A \<close> and \<^verbatim>\<open> B \<close> the
  explanation keeps the space after A and the space before B.
\<close>

theorem before_lines_are_trimmed:
  "classify ls q ch co = classify (map strip ls) q ch co \<and>
   (parse_qb text = Inr r \<longrightarrow>
      (\<forall>l \<in> set (splitlines (question r)). trimmed l) \<and>
      (\<forall>c \<in> set (choices r). trimmed c)) \<and>
   (parse_qb text = Inr r \<and> re_search_m EXPLAIN_RE text = Some (s, e) \<longrightarrow>
      explanation r =
        strip (join_nl (filter (\<lambda>l. strip l \<noteq> [] \<and> \<not> is_noise l) (splitlines (drop e text))))) \<and>
   parse_qb [0x89E3, 0x8AAC, 0xA, 0x20, 0x41, 0x20, 0xA, 0x20, 0x42, 0x20] =
     Inr \<lparr>question = [], choices = [], correct = [],
          explanation = [0x41, 0x20, 0xA, 0x20, 0x42]\<rparr>"
proof (intro conjI impI)
  show "classify ls q ch co = classify (map strip ls) q ch co" by (rule classify_strip)
next
  assume p: "parse_qb text = Inr r"
  then have 2: "splitlines (question r) = filter prose_line (before_lines text)"
    using question_prose_lines by blast
  show "\<forall>l \<in> set (splitlines (question r)). trimmed l"
  proof
    fix l assume "l \<in> set (splitlines (question r))"
    with 2 have "l \<in> set (before_lines text)" "l \<noteq> []" by (simp_all add: prose_line_def)
    then show "trimmed l" using before_lines_trimmed by blast
  qed
  from p obtain q0 where
    "classify (splitlines (fst (split_explanation text))) [] [] [] = Inr (q0, choices r, correct r)"
    using parse_qb_fields by blast
  then have "choices r = [] @ map without_marker (filter choice_line (before_lines text))"
    unfolding before_lines_def by (rule classify_choices)
  then have c: "choices r = map without_marker (filter choice_line (before_lines text))" by simp
  show "\<forall>c \<in> set (choices r). trimmed c"
  proof
    fix x assume "x \<in> set (choices r)"
    with c obtain l where l: "l \<in> set (before_lines text)" "choice_line l"
      and x: "x = without_marker l" by auto
    from l(2) have "l \<noteq> []" by (simp add: choice_line_def)
    with l(1) have "trimmed l" using before_lines_trimmed by blast
    with l(2) x show "trimmed x" using choice_trimmed by simp
  qed
next
  assume "parse_qb text = Inr r \<and> re_search_m EXPLAIN_RE text = Some (s, e)"
  then have p: "parse_qb text = Inr r" and m: "re_search_m EXPLAIN_RE text = Some (s, e)"
    by simp_all
  from p have "explanation r = snd (split_explanation text)" using parse_qb_fields by blast
  with m show "explanation r =
        strip (join_nl (filter (\<lambda>l. strip l \<noteq> [] \<and> \<not> is_noise l) (splitlines (drop e text))))"
    by (simp add: split_explanation_def)
next
  show "parse_qb [0x89E3, 0x8AAC, 0xA, 0x20, 0x41, 0x20, 0xA, 0x20, 0x42, 0x20] =
     Inr \<lparr>question = [], choices = [], correct = [],
          explanation = [0x41, 0x20, 0xA, 0x20, 0x42]\<rparr>" by code_simp
qed

theorem before_lines_are_trimmed_witness:
  "parse_qb [0x20, 0x51, 0x20, 0xA, 0x20, 0x2A, 0x20, 0x20, 0x61, 0x20, 0x78, 0x20, 0xA,
             0x89E3, 0x8AAC, 0xA, 0x20, 0x41, 0x20, 0xA, 0x20, 0x42, 0x20] =
     Inr \<lparr>question = [0x51], choices = [[0x61, 0x20, 0x78]], correct = [],
          explanation = [0x41, 0x20, 0xA, 0x20, 0x42]\<rparr> \<and>
   splitlines [0x51] = [[0x51]] \<and> trimmed [0x51] \<and> trimmed [0x61, 0x20, 0x78] \<and>
   re_search_m EXPLAIN_RE
     [0x20, 0x51, 0x20, 0xA, 0x20, 0x2A, 0x20, 0x20, 0x61, 0x20, 0x78, 0x20, 0xA,
      0x89E3, 0x8AAC, 0xA, 0x20, 0x41, 0x20, 0xA, 0x20, 0x42, 0x20] = Some (13, 15) \<and>
   [0x41, 0x20, 0xA, 0x20, 0x42] =
     strip (join_nl (filter (\<lambda>l. strip l \<noteq> [] \<and> \<not> is_noise l)
       (splitlines (drop 15
         [0x20, 0x51, 0x20, 0xA, 0x20, 0x2A, 0x20, 0x20, 0x61, 0x20, 0x78, 0x20, 0xA,
          0x89E3, 0x8AAC, 0xA, 0x20, 0x41, 0x20, 0xA, 0x20, 0x42, 0x20])))) \<and>
   classify [[0x20, 0x51, 0x20]] [] [] [] = classify (map strip [[0x20, 0x51, 0x20]]) [] [] []"
proof -
  let ?T = "[0x20, 0x51, 0x20, 0xA, 0x20, 0x2A, 0x20, 0x20, 0x61, 0x20, 0x78, 0x20, 0xA,
             0x89E3, 0x8AAC, 0xA, 0x20, 0x41, 0x20, 0xA, 0x20, 0x42, 0x20]"
  let ?R = "\<lparr>question = [0x51], choices = [[0x61, 0x20, 0x78]], correct = [],
          explanation = [0x41, 0x20, 0xA, 0x20, 0x42]\<rparr>"
  have p: "parse_qb ?T = Inr ?R" by code_simp
  have s: "splitlines [0x51] = [[0x51]]" by code_simp
  have m: "re_search_m EXPLAIN_RE ?T = Some (13, 15)" by code_simp
  note th = before_lines_are_trimmed [of "[[0x20, 0x51, 0x20]]" "[]" "[]" "[]" ?T ?R 13 15]
  from th p have "\<forall>l \<in> set (splitlines (question ?R)). trimmed l"
    and "\<forall>c \<in> set (choices ?R). trimmed c" by blast+
  with s have a: "trimmed [0x51]" "trimmed [0x61, 0x20, 0x78]" by simp_all
  from th p m have "explanation ?R =
      strip (join_nl (filter (\<lambda>l. strip l \<noteq> [] \<and> \<not> is_noise l) (splitlines (drop 15 ?T))))"
    by blast
  then have b: "[0x41, 0x20, 0xA, 0x20, 0x42] =
      strip (join_nl (filter (\<lambda>l. strip l \<noteq> [] \<and> \<not> is_noise l) (splitlines (drop 15 ?T))))"
    by simp
  from th have c: "classify [[0x20, 0x51, 0x20]] [] [] [] =
      classify (map strip [[0x20, 0x51, 0x20]]) [] [] []" by blast
  from p s a m b c show ?thesis by blast
qed


subsection \<open>The search for the explanation marker\<close>

lemma find_map_comp: "find P (map f xs) = map_option f (find (P \<circ> f) xs)"
  by (induction xs) simp_all

lemma upt_Suc_shift: "[0..<Suc (Suc n)] = 0 # map Suc [0..<Suc n]"
proof -
  have "[0..<Suc (Suc n)] = 0 # [Suc 0..<Suc (Suc n)]" by (rule upt_conv_Cons) simp
  also have "[Suc 0..<Suc (Suc n)] = map Suc [0..<Suc n]" by (rule map_Suc_upt [symmetric])
  finally show ?thesis .
qed

lemma re_search_from_find:
  "re_search_from p i bol s =
     map_option (\<lambda>k. (i + k, i + k + (length (drop k s) - length (hd (p (drop k s))))))
       (find (\<lambda>k. (if k = 0 then bol else s ! (k - 1) = 0xA) \<and> p (drop k s) \<noteq> [])
          [0..<Suc (length s)])"
proof (induction s arbitrary: i bol)
  case Nil
  show ?case by (cases "p []") simp_all
next
  case (Cons c cs)
  let ?P = "\<lambda>k. (if k = 0 then bol else (c # cs) ! (k - 1) = 0xA) \<and> p (drop k (c # cs)) \<noteq> []"
  let ?Q = "\<lambda>k. (if k = 0 then c = 0xA else cs ! (k - 1) = 0xA) \<and> p (drop k cs) \<noteq> []"
  have PQ: "?P \<circ> Suc = ?Q"
  proof
    fix k show "(?P \<circ> Suc) k = ?Q k" by (cases k) simp_all
  qed
  have "length (c # cs) = Suc (length cs)" by simp
  then have up: "[0..<Suc (length (c # cs))] = 0 # map Suc [0..<Suc (length cs)]"
    by (simp only: upt_Suc_shift)
  show ?case
  proof (cases "bol \<and> p (c # cs) \<noteq> []")
    case True
    then obtain m ms where m: "p (c # cs) = m # ms" by (cases "p (c # cs)") simp_all
    have "find ?P [0..<Suc (length (c # cs))] = Some 0"
      unfolding up using True by simp
    moreover have "re_search_from p i bol (c # cs) = Some (i, i + (length (c # cs) - length m))"
      using True m by simp
    ultimately show ?thesis using m by simp
  next
    case False
    then have f: "(if bol then p (c # cs) else []) = []" by auto
    have np: "\<not> ?P 0" using False by simp
    have "find ?P [0..<Suc (length (c # cs))] = find ?P (map Suc [0..<Suc (length cs)])"
      unfolding up using np by (simp only: find.simps if_False)
    also have "\<dots> = map_option Suc (find (?P \<circ> Suc) [0..<Suc (length cs)])"
      by (rule find_map_comp)
    also have "\<dots> = map_option Suc (find ?Q [0..<Suc (length cs)])" by (simp only: PQ)
    finally have "find ?P [0..<Suc (length (c # cs))] =
        map_option Suc (find ?Q [0..<Suc (length cs)])" .
    moreover have "re_search_from p i bol (c # cs) = re_search_from p (Suc i) (c = 0xA) cs"
      using f by simp
    ultimately show ?thesis
      by (simp only: Cons.IH [of "Suc i" "c = 0xA"] option.map_comp) (simp add: comp_def)
  qed
qed

lemma rx_eol_m_iff: "r \<in> set (rx_eol_m s) \<longleftrightarrow> r = s \<and> (s = [] \<or> hd s = 0xA)"
  by (simp add: rx_eol_m_def)

lemma rx_str2_iff: "r \<in> set (rx_str [a, b] s) \<longleftrightarrow> s = a # b # r"
  by (auto simp: rx_str_def rx_cat_Cons rx_cat_Nil rx_seq_iff rx_eps_iff rx_lit_iff)

lemma EXPLAIN_RE_iff:
  "m \<in> set (EXPLAIN_RE s) \<longleftrightarrow>
     (\<exists>w. s = 0x89E3 # 0x8AAC # w @ m \<and> (\<forall>c \<in> set w. isspace c) \<and> (m = [] \<or> hd m = 0xA))"
proof
  assume "m \<in> set (EXPLAIN_RE s)"
  then obtain r2 r3 where 1: "r2 \<in> set (rx_str [0x89E3, 0x8AAC] s)"
    and 3: "r3 \<in> set (rx_star isspace r2)" and 4: "m \<in> set (rx_eol_m r3)"
    unfolding EXPLAIN_RE_def rx_cat_Cons rx_cat_Nil rx_seq_iff rx_eps_iff
    by blast
  from 1 have a: "s = 0x89E3 # 0x8AAC # r2" by (simp add: rx_str2_iff)
  from 3 obtain w where w: "r2 = w @ r3" "\<forall>c \<in> set w. isspace c" by (auto simp: rx_star_iff)
  from 4 have e: "m = r3" "r3 = [] \<or> hd r3 = 0xA" by (simp_all add: rx_eol_m_iff)
  from a w e show "\<exists>w. s = 0x89E3 # 0x8AAC # w @ m \<and> (\<forall>c \<in> set w. isspace c) \<and>
      (m = [] \<or> hd m = 0xA)" by blast
next
  assume "\<exists>w. s = 0x89E3 # 0x8AAC # w @ m \<and> (\<forall>c \<in> set w. isspace c) \<and> (m = [] \<or> hd m = 0xA)"
  then obtain w where s: "s = 0x89E3 # 0x8AAC # w @ m" and w: "\<forall>c \<in> set w. isspace c"
    and e: "m = [] \<or> hd m = 0xA" by blast
  have 1: "w @ m \<in> set (rx_str [0x89E3, 0x8AAC] s)" using s by (simp add: rx_str2_iff)
  have 3: "m \<in> set (rx_star isspace (w @ m))" using w by (auto simp: rx_star_iff)
  have 4: "m \<in> set (rx_eol_m m)" using e by (simp add: rx_eol_m_iff)
  from 1 3 4 show "m \<in> set (EXPLAIN_RE s)"
    unfolding EXPLAIN_RE_def rx_cat_Cons rx_cat_Nil rx_seq_iff rx_eps_iff
    by blast
qed

lemma takeWhile_prefix_set:
  assumes "m = [] \<or> hd m = (x::int)"
  shows "set (takeWhile (\<lambda>c. c \<noteq> x) (w @ m)) \<subseteq> set w"
proof (cases "\<forall>c \<in> set w. c \<noteq> x")
  case True
  then have "takeWhile (\<lambda>c. c \<noteq> x) (w @ m) = w @ takeWhile (\<lambda>c. c \<noteq> x) m"
    by (simp add: takeWhile_append2)
  moreover from assms have "takeWhile (\<lambda>c. c \<noteq> x) m = []" by (cases m) auto
  ultimately show ?thesis by simp
next
  case False
  then obtain c where "c \<in> set w" "\<not> c \<noteq> x" by blast
  then have "takeWhile (\<lambda>c. c \<noteq> x) (w @ m) = takeWhile (\<lambda>c. c \<noteq> x) w"
    by (rule takeWhile_append1)
  then show ?thesis by (auto dest: set_takeWhileD)
qed

lemma EXPLAIN_RE_marker_line:
  "re_match EXPLAIN_RE s \<longleftrightarrow> marker_line (takeWhile (\<lambda>c. c \<noteq> 0xA) s)"
proof
  assume "re_match EXPLAIN_RE s"
  then obtain m where "m \<in> set (EXPLAIN_RE s)" by (auto simp: re_match_iff)
  then obtain w where s: "s = 0x89E3 # 0x8AAC # w @ m" and w: "\<forall>c \<in> set w. isspace c"
    and e: "m = [] \<or> hd m = 0xA" unfolding EXPLAIN_RE_iff by blast
  from e have "set (takeWhile (\<lambda>c. c \<noteq> 0xA) (w @ m)) \<subseteq> set w" by (rule takeWhile_prefix_set)
  with w have "\<forall>c \<in> set (takeWhile (\<lambda>c. c \<noteq> 0xA) (w @ m)). isspace c" by blast
  with s show "marker_line (takeWhile (\<lambda>c. c \<noteq> 0xA) s)"
    by (simp add: marker_line_def list_all_iff)
next
  assume a: "marker_line (takeWhile (\<lambda>c. c \<noteq> 0xA) s)"
  then have t: "take 2 (takeWhile (\<lambda>c. c \<noteq> 0xA) s) = [0x89E3, 0x8AAC]"
    by (simp add: marker_line_def)
  then obtain s' where s: "s = 0x89E3 # 0x8AAC # s'"
  proof (cases s)
    case Nil
    with t show ?thesis by simp
  next
    case c1: (Cons a r)
    show ?thesis
    proof (cases r)
      case Nil
      with t c1 show ?thesis by (simp split: if_splits)
    next
      case (Cons b r')
      with t c1 that show ?thesis by (simp split: if_splits add: numeral_2_eq_2)
    qed
  qed
  let ?w = "takeWhile (\<lambda>c. c \<noteq> 0xA) s'" and ?m = "dropWhile (\<lambda>c. c \<noteq> 0xA) s'"
  from a s have "\<forall>c \<in> set ?w. isspace c" by (simp add: marker_line_def list_all_iff)
  moreover have "?m = [] \<or> hd ?m = 0xA" using hd_dropWhile [of "\<lambda>c. c \<noteq> 0xA" s'] by blast
  moreover have "s = 0x89E3 # 0x8AAC # ?w @ ?m" using s by simp
  ultimately have "?m \<in> set (EXPLAIN_RE s)" unfolding EXPLAIN_RE_iff by blast
  then show "re_match EXPLAIN_RE s" by (auto simp: re_match_iff)
qed

lemma first_marker_search:
  "re_search_m EXPLAIN_RE t =
     map_option (\<lambda>k. (k, k + (length (drop k t) - length (hd (EXPLAIN_RE (drop k t))))))
       (first_marker t)"
proof -
  have "(\<lambda>k. (if k = 0 then True else t ! (k - 1) = 0xA) \<and> EXPLAIN_RE (drop k t) \<noteq> []) =
      (\<lambda>i. line_start t i \<and> marker_line (line_at t i))"
  proof
    fix k
    have "EXPLAIN_RE (drop k t) \<noteq> [] \<longleftrightarrow> marker_line (line_at t k)"
      using EXPLAIN_RE_marker_line [of "drop k t"] by (simp add: re_match_def line_at_def)
    then show "((if k = 0 then True else t ! (k - 1) = 0xA) \<and> EXPLAIN_RE (drop k t) \<noteq> []) =
        (line_start t k \<and> marker_line (line_at t k))"
      by (auto simp: line_start_def)
  qed
  then show ?thesis
    unfolding re_search_m_def first_marker_def re_search_from_find by simp
qed


lemma splitlines_from_all:
  "l \<in> set (splitlines_from cur s) \<Longrightarrow> \<forall>c \<in> set cur. P c \<Longrightarrow> \<forall>c \<in> set s. P c \<Longrightarrow>
   \<forall>c \<in> set l. P c"
proof (induction cur s rule: splitlines_from.induct)
  case (1 cur)
  then show ?case by (simp split: if_splits)
next
  case (2 cur c cs)
  from 2(6) have pc: "P c" and pcs: "\<forall>x \<in> set cs. P x" by simp_all
  then have ptl: "\<forall>x \<in> set (tl cs). P x" by (cases cs) simp_all
  consider (crlf) "c = 0xD \<and> cs \<noteq> [] \<and> hd cs = 0xA"
    | (brk) "\<not> (c = 0xD \<and> cs \<noteq> [] \<and> hd cs = 0xA)" "linebreak c"
    | (chr) "\<not> (c = 0xD \<and> cs \<noteq> [] \<and> hd cs = 0xA)" "\<not> linebreak c" by blast
  then show ?case
  proof cases
    case crlf
    then have "splitlines_from cur (c # cs) = cur # splitlines_from [] (tl cs)"
      by (simp only: splitlines_from.simps simp_thms if_True)
    with 2(4) have "l = cur \<or> l \<in> set (splitlines_from [] (tl cs))" by simp
    then show ?thesis
    proof
      assume "l = cur" with 2(5) show ?thesis by simp
    next
      assume "l \<in> set (splitlines_from [] (tl cs))"
      then show ?thesis using ptl by (intro 2(1) [OF crlf]) simp_all
    qed
  next
    case brk
    then have "splitlines_from cur (c # cs) = cur # splitlines_from [] cs"
      by (simp only: splitlines_from.simps if_False if_True)
    with 2(4) have "l = cur \<or> l \<in> set (splitlines_from [] cs)" by simp
    then show ?thesis
    proof
      assume "l = cur" with 2(5) show ?thesis by simp
    next
      assume "l \<in> set (splitlines_from [] cs)"
      then show ?thesis using pcs by (intro 2(2) [OF brk]) simp_all
    qed
  next
    case chr
    then have "splitlines_from cur (c # cs) = splitlines_from (cur @ [c]) cs"
      by (simp only: splitlines_from.simps if_False)
    with 2(4) have "l \<in> set (splitlines_from (cur @ [c]) cs)" by simp
    moreover from pc 2(5) have "\<forall>x \<in> set (cur @ [c]). P x" by simp
    ultimately show ?thesis using pcs by (intro 2(3) [OF chr]) simp_all
  qed
qed

lemma splitlines_from_LF:
  "splitlines_from cur (a @ 0xA # x) = splitlines_from cur (a @ [0xA]) @ splitlines_from [] x"
proof (induction a arbitrary: cur rule: length_induct)
  case (1 a)
  show ?case
  proof (cases a)
    case Nil
    then show ?thesis by (simp add: linebreak_LF)
  next
    case (Cons c a')
    have h: "hd (a' @ 0xA # x) = hd (a' @ [0xA])" by (cases a') simp_all
    have ih: "splitlines_from cur' (a' @ 0xA # x) =
        splitlines_from cur' (a' @ [0xA]) @ splitlines_from [] x" for cur'
      using 1 Cons by simp
    have tl: "splitlines_from [] (tl (a' @ 0xA # x)) =
        splitlines_from [] (tl (a' @ [0xA])) @ splitlines_from [] x"
    proof (cases a')
      case Nil
      then show ?thesis by simp
    next
      case c2: (Cons d a'')
      have "length a'' < length a" using Cons c2 by simp
      with 1 have "splitlines_from [] (a'' @ 0xA # x) =
          splitlines_from [] (a'' @ [0xA]) @ splitlines_from [] x" by blast
      with c2 show ?thesis by simp
    qed
    have ne: "a' @ 0xA # x \<noteq> []" "a' @ [0xA] \<noteq> []" by simp_all
    consider (crlf) "c = 0xD \<and> hd (a' @ [0xA]) = 0xA"
      | (brk) "\<not> (c = 0xD \<and> hd (a' @ [0xA]) = 0xA)" "linebreak c"
      | (chr) "\<not> (c = 0xD \<and> hd (a' @ [0xA]) = 0xA)" "\<not> linebreak c" by blast
    then show ?thesis
    proof cases
      case crlf
      with h ne have c1: "c = 0xD \<and> a' @ 0xA # x \<noteq> [] \<and> hd (a' @ 0xA # x) = 0xA"
        and c2: "c = 0xD \<and> a' @ [0xA] \<noteq> [] \<and> hd (a' @ [0xA]) = 0xA" by simp_all
      have "splitlines_from cur (c # a' @ 0xA # x) = cur # splitlines_from [] (tl (a' @ 0xA # x))"
        by (simp only: splitlines_from.simps c1 simp_thms if_True)
      moreover have "splitlines_from cur (c # a' @ [0xA]) =
          cur # splitlines_from [] (tl (a' @ [0xA]))"
        by (simp only: splitlines_from.simps c2 simp_thms if_True)
      ultimately show ?thesis using tl Cons by simp
    next
      case brk
      with h have c1: "\<not> (c = 0xD \<and> a' @ 0xA # x \<noteq> [] \<and> hd (a' @ 0xA # x) = 0xA)"
        and c2: "\<not> (c = 0xD \<and> a' @ [0xA] \<noteq> [] \<and> hd (a' @ [0xA]) = 0xA)" by simp_all
      have "splitlines_from cur (c # a' @ 0xA # x) = cur # splitlines_from [] (a' @ 0xA # x)"
        by (simp only: splitlines_from.simps c1 brk(2) if_False if_True)
      moreover have "splitlines_from cur (c # a' @ [0xA]) = cur # splitlines_from [] (a' @ [0xA])"
        by (simp only: splitlines_from.simps c2 brk(2) if_False if_True)
      ultimately show ?thesis using ih Cons by simp
    next
      case chr
      with h have c1: "\<not> (c = 0xD \<and> a' @ 0xA # x \<noteq> [] \<and> hd (a' @ 0xA # x) = 0xA)"
        and c2: "\<not> (c = 0xD \<and> a' @ [0xA] \<noteq> [] \<and> hd (a' @ [0xA]) = 0xA)" by simp_all
      have "splitlines_from cur (c # a' @ 0xA # x) =
          splitlines_from (cur @ [c]) (a' @ 0xA # x)"
        by (simp only: splitlines_from.simps c1 chr(2) if_False)
      moreover have "splitlines_from cur (c # a' @ [0xA]) =
          splitlines_from (cur @ [c]) (a' @ [0xA])"
        by (simp only: splitlines_from.simps c2 chr(2) if_False)
      ultimately show ?thesis using ih Cons by simp
    qed
  qed
qed

lemma strip_blank: "\<forall>c \<in> set l. isspace c \<Longrightarrow> strip l = []"
proof -
  assume "\<forall>c \<in> set l. isspace c"
  then have "dropWhile isspace l = []" by simp
  then show ?thesis unfolding strip_def by (simp only: rev.simps dropWhile.simps)
qed

lemma isspace_LF: "isspace 0xA"
  by (simp add: isspace_def)

lemma kept_blank:
  assumes "\<forall>c \<in> set cur. isspace c" "\<forall>c \<in> set s. isspace c"
  shows "filter kept_line (splitlines_from cur s) = []"
proof -
  have "\<not> kept_line l" if "l \<in> set (splitlines_from cur s)" for l
  proof -
    from that assms have "\<forall>c \<in> set l. isspace c" by (rule splitlines_from_all)
    then show ?thesis by (simp add: kept_line_def strip_blank)
  qed
  then show ?thesis by (simp add: filter_empty_conv)
qed

lemma kept_after_blank:
  assumes "\<forall>c \<in> set w. isspace c"
  shows "filter kept_line (splitlines (w @ 0xA # x)) = filter kept_line (splitlines x)"
proof -
  from assms have "\<forall>c \<in> set (w @ [0xA]). isspace c" by (simp add: isspace_LF)
  then have "filter kept_line (splitlines_from [] (w @ [0xA])) = []"
    by (intro kept_blank) simp_all
  then show ?thesis by (simp add: splitlines_def splitlines_from_LF [of "[]" w x])
qed

lemma EXPLAIN_RE_after:
  assumes "m \<in> set (EXPLAIN_RE s)"
  shows "filter kept_line (splitlines m) =
         filter kept_line (splitlines (tl (dropWhile (\<lambda>c. c \<noteq> 0xA) s)))"
proof -
  from assms obtain w where s: "s = 0x89E3 # 0x8AAC # w @ m" and w: "\<forall>c \<in> set w. isspace c"
    and e: "m = [] \<or> hd m = 0xA" unfolding EXPLAIN_RE_iff by blast
  let ?d = "dropWhile (\<lambda>c. c \<noteq> 0xA) (w @ m)"
  from s have d: "dropWhile (\<lambda>c. c \<noteq> 0xA) s = ?d" by simp
  show ?thesis
  proof (cases m)
    case Nil
    have "\<forall>c \<in> set (tl ?d). isspace c"
    proof
      fix c assume "c \<in> set (tl ?d)"
      then have "c \<in> set ?d" by (cases ?d) simp_all
      then have "c \<in> set (w @ m)" by (rule set_dropWhileD)
      with Nil w show "isspace c" by simp
    qed
    then have "filter kept_line (splitlines_from [] (tl ?d)) = []"
      by (intro kept_blank) simp_all
    with Nil d show ?thesis by (simp add: splitlines_def)
  next
    case (Cons c m')
    with e have m: "m = 0xA # m'" by simp
    have 1: "filter kept_line (splitlines m) = filter kept_line (splitlines m')"
      using kept_after_blank [of "[]" m'] m by simp
    show ?thesis
    proof (cases "\<forall>c \<in> set w. c \<noteq> 0xA")
      case True
      then have "?d = dropWhile (\<lambda>c. c \<noteq> 0xA) m" by (simp add: dropWhile_append2)
      with m have "tl ?d = m'" by simp
      with 1 d show ?thesis by simp
    next
      case False
      then obtain c where c: "c \<in> set w" "\<not> c \<noteq> 0xA" by blast
      then have a: "?d = dropWhile (\<lambda>c. c \<noteq> 0xA) w @ m" by (rule dropWhile_append1)
      let ?e = "dropWhile (\<lambda>c. c \<noteq> 0xA) w"
      from c have ne: "?e \<noteq> []" by auto
      then have "hd ?e = 0xA" using hd_dropWhile [of "\<lambda>c. c \<noteq> 0xA" w] by blast
      with ne obtain w1 where e1: "?e = 0xA # w1" by (cases ?e) simp_all
      have "set w1 \<subseteq> set ?e" using e1 by auto
      also have "\<dots> \<subseteq> set w" by (auto dest: set_dropWhileD)
      finally have "\<forall>c \<in> set w1. isspace c" using w by blast
      then have "filter kept_line (splitlines (w1 @ 0xA # m')) = filter kept_line (splitlines m')"
        by (rule kept_after_blank)
      moreover from a e1 m have "tl ?d = w1 @ 0xA # m'" by simp
      ultimately show ?thesis using 1 d by simp
    qed
  qed
qed

lemma first_marker_SomeD:
  assumes "first_marker t = Some k"
  shows "k \<le> length t \<and> line_start t k \<and> marker_line (line_at t k) \<and>
         (\<forall>j < k. \<not> (line_start t j \<and> marker_line (line_at t j)))"
proof -
  let ?P = "\<lambda>i. line_start t i \<and> marker_line (line_at t i)"
  from assms obtain i where i: "i < length [0..<Suc (length t)]" "?P ([0..<Suc (length t)] ! i)"
    "k = [0..<Suc (length t)] ! i" "\<forall>j < i. \<not> ?P ([0..<Suc (length t)] ! j)"
    unfolding first_marker_def find_Some_iff by blast
  have n: "[0..<Suc (length t)] ! j = j" if "j < Suc (length t)" for j
    using that by (simp del: upt_Suc)
  from i(1) have il: "i < Suc (length t)" by simp
  then have ki: "k = i" using i(3) n by simp
  have "\<not> ?P j" if "j < k" for j
  proof -
    from that ki il have "j < i" "j < Suc (length t)" by simp_all
    with i(4) n show ?thesis by metis
  qed
  moreover from i(2) ki il n have "?P k" by metis
  ultimately show ?thesis using ki il by simp
qed

lemma split_explanation_at_marker: "split_explanation t = split_at_marker t"
proof (cases "first_marker t")
  case None
  then have "re_search_m EXPLAIN_RE t = None" by (simp add: first_marker_search)
  with None show ?thesis by (simp add: split_explanation_def split_at_marker_def)
next
  case (Some k)
  let ?s = "drop k t"
  let ?m = "hd (EXPLAIN_RE ?s)"
  from Some have "marker_line (line_at t k)" using first_marker_SomeD by blast
  then have "re_match EXPLAIN_RE ?s" by (simp add: EXPLAIN_RE_marker_line line_at_def)
  then have "EXPLAIN_RE ?s \<noteq> []" by (simp add: re_match_def)
  then have mem: "?m \<in> set (EXPLAIN_RE ?s)" by simp
  then obtain w where s: "?s = 0x89E3 # 0x8AAC # w @ ?m" unfolding EXPLAIN_RE_iff by blast
  define pre where "pre = 0x89E3 # 0x8AAC # w"
  define e where "e = k + (length ?s - length ?m)"
  from s have sp: "?s = pre @ ?m" by (simp add: pre_def)
  then have "length ?s = length (pre @ ?m)" by (rule arg_cong)
  then have "length ?s = length pre + length ?m" by (simp only: length_append)
  then have "e = length pre + k" by (simp add: e_def)
  then have "drop e t = drop (length pre) ?s" by (simp only: drop_drop)
  also from sp have "\<dots> = drop (length pre) (pre @ ?m)" by (rule arg_cong)
  also have "\<dots> = ?m" by simp
  finally have dr: "drop e t = ?m" .
  have kl: "kept_line = (\<lambda>l. strip l \<noteq> [] \<and> \<not> is_noise l)"
    by (rule ext) (simp add: kept_line_def)
  from Some have "re_search_m EXPLAIN_RE t = Some (k, e)"
    by (simp only: first_marker_search e_def option.map)
  then have "split_explanation t = (take k t, strip (join_nl (filter kept_line (splitlines ?m))))"
    by (simp add: split_explanation_def dr kl)
  also have "filter kept_line (splitlines ?m) =
      filter kept_line (splitlines (tl (dropWhile (\<lambda>c. c \<noteq> 0xA) ?s)))"
    using mem by (rule EXPLAIN_RE_after)
  finally show ?thesis using Some
    by (simp add: split_at_marker_def kept_text_def after_line_def)
qed


lemma first_marker_exists:
  assumes "j \<le> length t" "line_start t j \<and> marker_line (line_at t j)"
  shows "\<exists>i \<le> j. first_marker t = Some i"
proof (cases "first_marker t")
  case None
  from assms(1) have "j \<in> set [0..<Suc (length t)]" by (simp del: upt_Suc)
  with None assms(2) show ?thesis unfolding first_marker_def find_None_iff by blast
next
  case (Some i)
  then have "\<forall>j < i. \<not> (line_start t j \<and> marker_line (line_at t j))"
    using first_marker_SomeD by blast
  with assms(2) have "\<not> j < i" by blast
  with Some show ?thesis by simp
qed

text \<open>
  Claim C4 fails as stated. In the text of three lines \<^verbatim>\<open>A\<close>, a space followed by
  U+89E3 U+8AAC, and \<^verbatim>\<open>B\<close>, the second line is the marker word with leading
  whitespace. The pattern of line 83 starts with the marker word right after \<^verbatim>\<open>^\<close>, so
  the search finds nothing: the explanation is empty and all three lines end up in
  \<open>question\<close>.
\<close>

theorem marker_leading_space_counterexample:
  "parse_qb [0x41, 0xA, 0x20, 0x89E3, 0x8AAC, 0xA, 0x42] =
     Inr \<lparr>question = [0x41, 0xA, 0x89E3, 0x8AAC, 0xA, 0x42], choices = [], correct = [],
          explanation = []\<rparr> \<and>
   splitlines [0x41, 0xA, 0x20, 0x89E3, 0x8AAC, 0xA, 0x42] =
     [[0x41], [0x20, 0x89E3, 0x8AAC], [0x42]] \<and>
   claimed_marker_line [0x20, 0x89E3, 0x8AAC]"
  by code_simp

text \<open>
  Claim C4, amended. A marker line is the marker word at the beginning of the text or
  right after a line feed, followed by nothing but whitespace up to the next line feed or
  the end of the text. (1) If the text has a marker line, the first one is found.
  (2) What is found starts a marker line. (3) The classifier then processes the text before
  that line as the "before" segment, and the explanation is made of the text after that
  line: its lines that are neither blank nor noise, joined and trimmed. (4) If there is no
  marker line, the whole text is the "before" segment and the explanation is empty.
\<close>

theorem split_at_first_marker_line:
  "(j \<le> length text \<and> line_start text j \<and> marker_line (line_at text j) \<longrightarrow>
      (\<exists>i \<le> j. first_marker text = Some i)) \<and>
   (first_marker text = Some i \<longrightarrow>
      i \<le> length text \<and> line_start text i \<and> marker_line (line_at text i)) \<and>
   (parse_qb text = Inr r \<and> first_marker text = Some i \<longrightarrow>
      explanation r = kept_text (after_line text i) \<and>
      (\<exists>q. classify (splitlines (take i text)) [] [] [] = Inr (q, choices r, correct r) \<and>
           question r = strip q)) \<and>
   (parse_qb text = Inr r \<and> first_marker text = None \<longrightarrow>
      explanation r = [] \<and>
      (\<exists>q. classify (splitlines text) [] [] [] = Inr (q, choices r, correct r) \<and>
           question r = strip q))"
proof -
  have 1: "j \<le> length text \<and> line_start text j \<and> marker_line (line_at text j) \<longrightarrow>
      (\<exists>i \<le> j. first_marker text = Some i)"
    using first_marker_exists by blast
  have 2: "first_marker text = Some i \<longrightarrow>
      i \<le> length text \<and> line_start text i \<and> marker_line (line_at text i)"
    using first_marker_SomeD by blast
  have 3: "parse_qb text = Inr r \<and> first_marker text = Some i \<longrightarrow>
      explanation r = kept_text (after_line text i) \<and>
      (\<exists>q. classify (splitlines (take i text)) [] [] [] = Inr (q, choices r, correct r) \<and>
           question r = strip q)"
  proof
    assume a: "parse_qb text = Inr r \<and> first_marker text = Some i"
    then have s: "split_explanation text = (take i text, kept_text (after_line text i))"
      by (simp add: split_explanation_at_marker split_at_marker_def)
    from a obtain q where "classify (splitlines (fst (split_explanation text))) [] [] [] =
        Inr (q, choices r, correct r) \<and> question r = strip q \<and>
        explanation r = snd (split_explanation text)" using parse_qb_fields by blast
    with s show "explanation r = kept_text (after_line text i) \<and>
        (\<exists>q. classify (splitlines (take i text)) [] [] [] = Inr (q, choices r, correct r) \<and>
             question r = strip q)" by auto
  qed
  have 4: "parse_qb text = Inr r \<and> first_marker text = None \<longrightarrow>
      explanation r = [] \<and>
      (\<exists>q. classify (splitlines text) [] [] [] = Inr (q, choices r, correct r) \<and>
           question r = strip q)"
  proof
    assume a: "parse_qb text = Inr r \<and> first_marker text = None"
    then have s: "split_explanation text = (text, [])"
      by (simp add: split_explanation_at_marker split_at_marker_def)
    from a obtain q where "classify (splitlines (fst (split_explanation text))) [] [] [] =
        Inr (q, choices r, correct r) \<and> question r = strip q \<and>
        explanation r = snd (split_explanation text)" using parse_qb_fields by blast
    with s show "explanation r = [] \<and>
        (\<exists>q. classify (splitlines text) [] [] [] = Inr (q, choices r, correct r) \<and>
             question r = strip q)" by auto
  qed
  show ?thesis by (rule conjI [OF 1 conjI [OF 2 conjI [OF 3 4]]])
qed

text \<open>
  Two instances. In the first the marker line at position 2 has a trailing space and is
  followed by an empty line; a second marker line at position 9 is part of the
  explanation. In the second the only candidate has a leading space.
\<close>

theorem split_at_first_marker_line_witness:
  "parse_qb [0x41, 0xA, 0x89E3, 0x8AAC, 0x20, 0xA, 0xA, 0x42, 0xA, 0x89E3, 0x8AAC, 0xA, 0x43] =
     Inr \<lparr>question = [0x41], choices = [], correct = [],
          explanation = [0x42, 0xA, 0x89E3, 0x8AAC, 0xA, 0x43]\<rparr> \<and>
   line_start [0x41, 0xA, 0x89E3, 0x8AAC, 0x20, 0xA, 0xA, 0x42, 0xA, 0x89E3, 0x8AAC, 0xA, 0x43] 9 \<and>
   marker_line
     (line_at [0x41, 0xA, 0x89E3, 0x8AAC, 0x20, 0xA, 0xA, 0x42, 0xA, 0x89E3, 0x8AAC, 0xA, 0x43] 9) \<and>
   first_marker
     [0x41, 0xA, 0x89E3, 0x8AAC, 0x20, 0xA, 0xA, 0x42, 0xA, 0x89E3, 0x8AAC, 0xA, 0x43] = Some 2 \<and>
   line_at [0x41, 0xA, 0x89E3, 0x8AAC, 0x20, 0xA, 0xA, 0x42, 0xA, 0x89E3, 0x8AAC, 0xA, 0x43] 2 =
     [0x89E3, 0x8AAC, 0x20] \<and>
   [0x42, 0xA, 0x89E3, 0x8AAC, 0xA, 0x43] =
     kept_text (after_line
       [0x41, 0xA, 0x89E3, 0x8AAC, 0x20, 0xA, 0xA, 0x42, 0xA, 0x89E3, 0x8AAC, 0xA, 0x43] 2) \<and>
   (\<exists>q. classify (splitlines (take 2
          [0x41, 0xA, 0x89E3, 0x8AAC, 0x20, 0xA, 0xA, 0x42, 0xA, 0x89E3, 0x8AAC, 0xA, 0x43]))
          [] [] [] = Inr (q, [], []) \<and> [0x41] = strip q) \<and>
   parse_qb [0x20, 0x89E3, 0x8AAC] =
     Inr \<lparr>question = [0x89E3, 0x8AAC], choices = [], correct = [], explanation = []\<rparr> \<and>
   first_marker [0x20, 0x89E3, 0x8AAC] = None \<and>
   (\<exists>q. classify (splitlines [0x20, 0x89E3, 0x8AAC]) [] [] [] = Inr (q, [], []) \<and>
        [0x89E3, 0x8AAC] = strip q)"
proof -
  let ?T = "[0x41, 0xA, 0x89E3, 0x8AAC, 0x20, 0xA, 0xA, 0x42, 0xA, 0x89E3, 0x8AAC, 0xA, 0x43]"
  let ?R = "\<lparr>question = [0x41], choices = [], correct = [],
          explanation = [0x42, 0xA, 0x89E3, 0x8AAC, 0xA, 0x43]\<rparr>"
  let ?U = "[0x20, 0x89E3, 0x8AAC]"
  let ?S = "\<lparr>question = [0x89E3, 0x8AAC], choices = [], correct = [], explanation = []\<rparr>"
  have p: "parse_qb ?T = Inr ?R" by code_simp
  have m: "9 \<le> length (?T :: ustr) \<and> line_start ?T 9 \<and> marker_line (line_at ?T 9)"
    by code_simp
  have f: "first_marker ?T = Some 2" by code_simp
  have l: "line_at ?T 2 = [0x89E3, 0x8AAC, 0x20]" by code_simp
  have p': "parse_qb ?U = Inr ?S" by code_simp
  have f': "first_marker ?U = None" by code_simp
  note th = split_at_first_marker_line [of 9 ?T 2 ?R]
  note th' = split_at_first_marker_line [of 0 ?U 0 ?S]
  from th m have "\<exists>i \<le> 9. first_marker ?T = Some i" by blast
  from th p f have "explanation ?R = kept_text (after_line ?T 2) \<and>
      (\<exists>q. classify (splitlines (take 2 ?T)) [] [] [] = Inr (q, choices ?R, correct ?R) \<and>
           question ?R = strip q)" by blast
  then have a: "[0x42, 0xA, 0x89E3, 0x8AAC, 0xA, 0x43] = kept_text (after_line ?T 2)"
    and b: "\<exists>q. classify (splitlines (take 2 ?T)) [] [] [] = Inr (q, [], []) \<and> [0x41] = strip q"
    by simp_all
  from th' p' f' have "explanation ?S = [] \<and>
      (\<exists>q. classify (splitlines ?U) [] [] [] = Inr (q, choices ?S, correct ?S) \<and>
           question ?S = strip q)" by blast
  then have c: "\<exists>q. classify (splitlines ?U) [] [] [] = Inr (q, [], []) \<and>
      [0x89E3, 0x8AAC] = strip q" by simp
  from p m f l a b p' f' c show ?thesis by blast
qed


subsection \<open>The lines after the marker\<close>

lemma first_marker_take:
  assumes "first_marker t = Some s"
  shows "first_marker (take s t) = None"
proof -
  from assms have sl: "s \<le> length t" and ls: "line_start t s"
    and first: "\<forall>j < s. \<not> (line_start t j \<and> marker_line (line_at t j))"
    using first_marker_SomeD by blast+
  from sl have len: "length (take s t) = s" by simp
  have "\<not> (line_start (take s t) j \<and> marker_line (line_at (take s t) j))"
    if "j \<in> set [0..<Suc (length (take s t))]" for j
  proof (cases "j < s")
    case False
    with that len have "j = s" by (simp del: upt_Suc)
    then have "line_at (take s t) j = []" by (simp add: line_at_def)
    then show ?thesis by (simp add: marker_line_def)
  next
    case True
    then have s0: "s \<noteq> 0" by simp
    with ls have lf: "t ! (s - 1) = 0xA" by (simp add: line_start_def)
    let ?x = "drop j (take s t)"
    have "?x ! (s - 1 - j) = (take s t) ! (j + (s - 1 - j))"
      using True len by (intro nth_drop) simp
    also have "j + (s - 1 - j) = s - 1" using True by simp
    also have "(take s t) ! (s - 1) = t ! (s - 1)" using s0 by simp
    finally have "?x ! (s - 1 - j) = 0xA" using lf by simp
    moreover have "s - 1 - j < length ?x" using True len by simp
    ultimately have mem: "0xA \<in> set ?x" by (metis nth_mem)
    have "drop j t = ?x @ drop s t"
    proof -
      have "?x = take (s - j) (drop j t)" by (simp add: drop_take)
      moreover have "drop s t = drop (s - j) (drop j t)" using True by simp
      ultimately show ?thesis by (simp only: append_take_drop_id)
    qed
    then have "line_at t j = takeWhile (\<lambda>c. c \<noteq> 0xA) (?x @ drop s t)"
      by (simp only: line_at_def)
    also have "\<dots> = takeWhile (\<lambda>c. c \<noteq> 0xA) ?x"
      using mem by (intro takeWhile_append1 [of "0xA"]) simp_all
    finally have la: "line_at t j = line_at (take s t) j" by (simp only: line_at_def)
    have "line_start (take s t) j \<longleftrightarrow> line_start t j"
      using True by (cases j) (simp_all add: line_start_def)
    moreover from first True have "\<not> (line_start t j \<and> marker_line (line_at t j))" by blast
    ultimately show ?thesis using la by metis
  qed
  then show ?thesis unfolding first_marker_def find_None_iff by blast
qed

lemma before_alone:
  assumes "parse_qb text = Inr r" "re_search_m EXPLAIN_RE text = Some (s, e)"
  shows "parse_qb (take s text) = Inr (r\<lparr>explanation := []\<rparr>)"
proof -
  from assms(2) have fm: "first_marker text = Some s"
    by (auto simp: first_marker_search)
  then have "first_marker (take s text) = None" by (rule first_marker_take)
  then have "re_search_m EXPLAIN_RE (take s text) = None" by (simp add: first_marker_search)
  then have 1: "split_explanation (take s text) = (take s text, [])"
    by (simp add: split_explanation_def)
  from assms(2) have 2: "fst (split_explanation text) = take s text"
    by (simp add: split_explanation_def)
  from assms(1) obtain q where c: "classify (splitlines (fst (split_explanation text))) [] [] [] =
      Inr (q, choices r, correct r)" and q: "question r = strip q"
    using parse_qb_fields by blast
  from c 2 have "classify (splitlines (take s text)) [] [] [] = Inr (q, choices r, correct r)"
    by simp
  with 1 q show ?thesis by (simp add: parse_qb_def)
qed

lemma join_nl_ends: "\<exists>Z. \<forall>l k. join_nl (l # mid @ [k]) = l @ Z @ k"
proof (induction mid)
  case Nil
  have "\<forall>l k. join_nl (l # [] @ [k]) = l @ [0xA] @ k" by simp
  then show ?case by blast
next
  case (Cons m mid)
  then obtain Z where Z: "\<forall>l k. join_nl (l # mid @ [k]) = l @ Z @ k" by blast
  have "\<forall>l k. join_nl (l # (m # mid) @ [k]) = l @ (0xA # m @ Z) @ k"
    using Z by simp
  then show ?case by blast
qed

lemma strip_ends:
  assumes "\<exists>x \<in> set l. \<not> isspace x" "\<exists>x \<in> set k. \<not> isspace x"
  shows "strip (l @ Z @ k) = dropWhile isspace l @ Z @ rev (dropWhile isspace (rev k))"
proof -
  from assms(1) obtain x where "x \<in> set l" "\<not> isspace x" by blast
  then have 1: "dropWhile isspace (l @ Z @ k) = dropWhile isspace l @ Z @ k"
    by (rule dropWhile_append1)
  from assms(2) obtain y where "y \<in> set (rev k)" "\<not> isspace y" by auto
  then have "dropWhile isspace (rev k @ rev Z @ rev (dropWhile isspace l)) =
      dropWhile isspace (rev k) @ rev Z @ rev (dropWhile isspace l)"
    by (rule dropWhile_append1)
  with 1 show ?thesis by (simp add: strip_def)
qed

lemma strip_nonblank: "strip l \<noteq> [] \<Longrightarrow> \<exists>x \<in> set l. \<not> isspace x"
  using strip_blank by blast

lemma strip_join_nl:
  assumes "\<forall>k \<in> set ks. strip k \<noteq> []"
  shows "strip (join_nl ks) = join_nl (trim_ends ks)"
proof (cases ks rule: trim_ends.cases)
  case 1
  then show ?thesis by (simp add: strip_def)
next
  case (2 l)
  then show ?thesis by simp
next
  case (3 l m ls)
  let ?mid = "butlast (m # ls)" and ?k = "last (m # ls)"
  have ks: "ks = l # ?mid @ [?k]" using 3 by simp
  obtain Z where Z: "\<forall>l k. join_nl (l # ?mid @ [k]) = l @ Z @ k"
    using join_nl_ends by blast
  from assms 3 have "strip l \<noteq> []" by simp
  then have nl: "\<exists>x \<in> set l. \<not> isspace x" by (rule strip_nonblank)
  have "?k \<in> set ks" using 3 by simp
  with assms have "strip ?k \<noteq> []" by blast
  then have nk: "\<exists>x \<in> set ?k. \<not> isspace x" by (rule strip_nonblank)
  have "strip (join_nl ks) = strip (l @ Z @ ?k)" using ks Z by metis
  also have "\<dots> = dropWhile isspace l @ Z @ rev (dropWhile isspace (rev ?k))"
    using nl nk by (rule strip_ends)
  also have "\<dots> = join_nl (dropWhile isspace l # ?mid @ [rev (dropWhile isspace (rev ?k))])"
    using Z by simp
  also have "\<dots> = join_nl (trim_ends ks)" using 3 by simp
  finally show ?thesis .
qed

lemma trim_ends_lines:
  assumes "\<forall>k \<in> set ks. strip k \<noteq> [] \<and> (\<forall>c \<in> set k. \<not> linebreak c)"
    and "x \<in> set (trim_ends ks)"
  shows "x \<noteq> [] \<and> (\<forall>c \<in> set x. \<not> linebreak c)"
proof (cases ks rule: trim_ends.cases)
  case 1
  with assms(2) show ?thesis by simp
next
  case (2 l)
  with assms have x: "x = strip l" and l: "strip l \<noteq> []" "\<forall>c \<in> set l. \<not> linebreak c"
    by simp_all
  then show ?thesis using set_strip [of l] by auto
next
  case (3 l m ls)
  let ?k = "last (m # ls)"
  have kin: "?k \<in> set ks" using 3 by simp
  from assms(2) 3 consider (first) "x = dropWhile isspace l"
    | (mid) "x \<in> set (butlast (m # ls))"
    | (last) "x = rev (dropWhile isspace (rev ?k))" by auto
  then show ?thesis
  proof cases
    case first
    from assms(1) 3 have l: "strip l \<noteq> []" "\<forall>c \<in> set l. \<not> linebreak c" by simp_all
    from l(1) have "\<exists>x \<in> set l. \<not> isspace x" by (rule strip_nonblank)
    then have ne: "dropWhile isspace l \<noteq> []" by simp
    have sub: "\<forall>c \<in> set (dropWhile isspace l). \<not> linebreak c"
      using l(2) by (auto dest: set_dropWhileD)
    show ?thesis unfolding first by (rule conjI [OF ne sub])
  next
    case mid
    then have "x \<in> set (m # ls)" by (rule in_set_butlastD)
    then have "x \<in> set ks" using 3 by simp
    with assms(1) have "strip x \<noteq> []" "\<forall>c \<in> set x. \<not> linebreak c" by blast+
    moreover have "strip [] = []" by (simp add: strip_def)
    ultimately show ?thesis by metis
  next
    case last
    from assms(1) kin have k: "strip ?k \<noteq> []" "\<forall>c \<in> set ?k. \<not> linebreak c" by blast+
    from k(1) have "\<exists>x \<in> set (rev ?k). \<not> isspace x" using strip_nonblank by fastforce
    then have "dropWhile isspace (rev ?k) \<noteq> []" by simp
    then have ne: "rev (dropWhile isspace (rev ?k)) \<noteq> []" by (simp only: rev_is_Nil_conv simp_thms)
    have "\<forall>c \<in> set (dropWhile isspace (rev ?k)). \<not> linebreak c"
      using k(2) by (auto dest: set_dropWhileD)
    then have sub: "\<forall>c \<in> set (rev (dropWhile isspace (rev ?k))). \<not> linebreak c"
      by (simp only: set_rev)
    show ?thesis unfolding last by (rule conjI [OF ne sub])
  qed
qed

lemma explanation_lines:
  assumes "parse_qb text = Inr r" "re_search_m EXPLAIN_RE text = Some (s, e)"
  shows "explanation r = join_nl (trim_ends (filter kept_line (splitlines (drop e text)))) \<and>
         splitlines (explanation r) = trim_ends (filter kept_line (splitlines (drop e text)))"
proof -
  let ?ks = "filter kept_line (splitlines (drop e text))"
  have kl: "kept_line = (\<lambda>l. strip l \<noteq> [] \<and> \<not> is_noise l)"
    by (rule ext) (simp add: kept_line_def)
  from assms(1) have "explanation r = snd (split_explanation text)"
    using parse_qb_fields by blast
  with assms(2) have "explanation r = strip (join_nl ?ks)"
    by (simp add: split_explanation_def kl)
  moreover have a: "\<forall>k \<in> set ?ks. strip k \<noteq> []" by (simp add: kept_line_def)
  ultimately have 1: "explanation r = join_nl (trim_ends ?ks)" by (simp add: strip_join_nl)
  have "\<forall>k \<in> set ?ks. strip k \<noteq> [] \<and> (\<forall>c \<in> set k. \<not> linebreak c)"
  proof
    fix k assume "k \<in> set ?ks"
    then have "k \<in> set (splitlines (drop e text))" and "strip k \<noteq> []"
      by (simp_all add: kept_line_def)
    then show "strip k \<noteq> [] \<and> (\<forall>c \<in> set k. \<not> linebreak c)"
      using splitlines_no_break by blast
  qed
  then have "\<forall>x \<in> set (trim_ends ?ks). x \<noteq> [] \<and> (\<forall>c \<in> set x. \<not> linebreak c)"
    using trim_ends_lines by blast
  then have "splitlines_from [] (join_nl (trim_ends ?ks)) = trim_ends ?ks"
    by (rule splitlines_from_join_nl)
  with 1 show ?thesis by (simp add: splitlines_def)
qed

text \<open>
  Claim C10 fails as stated, in its last part. The line after the marker is U+6B63 U+89E3
  U+FF1A \<^verbatim>\<open>b\<close> followed by a space: it matches \<^verbatim>\<open>CORRECT_RE\<close> and is neither
  blank nor noise, but the explanation holds it without the space, because the joined
  lines are trimmed (line 89).
\<close>

theorem after_line_not_verbatim_counterexample:
  "parse_qb [0x89E3, 0x8AAC, 0xA, 0x6B63, 0x89E3, 0xFF1A, 0x62, 0x20] =
     Inr \<lparr>question = [], choices = [], correct = [],
          explanation = [0x6B63, 0x89E3, 0xFF1A, 0x62]\<rparr> \<and>
   re_search_m EXPLAIN_RE [0x89E3, 0x8AAC, 0xA, 0x6B63, 0x89E3, 0xFF1A, 0x62, 0x20] =
     Some (0, 2) \<and>
   splitlines (drop 2 [0x89E3, 0x8AAC, 0xA, 0x6B63, 0x89E3, 0xFF1A, 0x62, 0x20]) =
     [[], [0x6B63, 0x89E3, 0xFF1A, 0x62, 0x20]] \<and>
   CORRECT_RE_match [0x6B63, 0x89E3, 0xFF1A, 0x62, 0x20] = Some [0x62] \<and>
   kept_line [0x6B63, 0x89E3, 0xFF1A, 0x62, 0x20] \<and>
   [0x6B63, 0x89E3, 0xFF1A, 0x62, 0x20] \<notin> set (splitlines [0x6B63, 0x89E3, 0xFF1A, 0x62])"
  by code_simp

text \<open>
  Claim C10, amended. When the marker is found at position \<open>s\<close>, with the "after"
  segment starting at \<open>e\<close>: (1) the classifier returns on the text before the marker
  alone the same \<open>question\<close>, \<open>choices\<close> and \<open>correct\<close> as on the whole text, so no
  line after the marker sets \<open>correct\<close> or is appended to \<open>choices\<close>; (2) the lines of
  \<open>explanation\<close> are the lines of the "after" segment that are neither blank nor noise,
  whatever else they match, in order and as they are, except that the whitespace at the
  beginning of the first and at the end of the last is removed. (3) With a correct-answer
  line and a choice line after the marker, \<open>correct\<close> and \<open>choices\<close> stay empty and both
  lines are in \<open>explanation\<close>.
\<close>

theorem after_lines_not_classified:
  "(parse_qb text = Inr r \<and> re_search_m EXPLAIN_RE text = Some (s, e) \<longrightarrow>
      parse_qb (take s text) = Inr (r\<lparr>explanation := []\<rparr>) \<and>
      explanation r = join_nl (trim_ends (filter kept_line (splitlines (drop e text)))) \<and>
      splitlines (explanation r) = trim_ends (filter kept_line (splitlines (drop e text)))) \<and>
   parse_qb [0x51, 0xA, 0x89E3, 0x8AAC, 0xA, 0x6B63, 0x89E3, 0xFF1A, 0x62, 0xA,
             0x2A, 0x20, 0x61, 0x20, 0x78] =
     Inr \<lparr>question = [0x51], choices = [], correct = [],
          explanation = [0x6B63, 0x89E3, 0xFF1A, 0x62, 0xA, 0x2A, 0x20, 0x61, 0x20, 0x78]\<rparr>"
proof -
  have 1: "parse_qb text = Inr r \<and> re_search_m EXPLAIN_RE text = Some (s, e) \<longrightarrow>
      parse_qb (take s text) = Inr (r\<lparr>explanation := []\<rparr>) \<and>
      explanation r = join_nl (trim_ends (filter kept_line (splitlines (drop e text)))) \<and>
      splitlines (explanation r) = trim_ends (filter kept_line (splitlines (drop e text)))"
    using before_alone explanation_lines by blast
  have 2: "parse_qb [0x51, 0xA, 0x89E3, 0x8AAC, 0xA, 0x6B63, 0x89E3, 0xFF1A, 0x62, 0xA,
             0x2A, 0x20, 0x61, 0x20, 0x78] =
     Inr \<lparr>question = [0x51], choices = [], correct = [],
          explanation = [0x6B63, 0x89E3, 0xFF1A, 0x62, 0xA, 0x2A, 0x20, 0x61, 0x20, 0x78]\<rparr>"
    by code_simp
  show ?thesis by (rule conjI [OF 1 2])
qed

text \<open>
  An instance with three lines after the marker, each with a space on both sides: the
  second, a correct-answer line, keeps both spaces.
\<close>

theorem after_lines_not_classified_witness:
  "parse_qb [0x51, 0xA, 0x89E3, 0x8AAC, 0xA, 0x20, 0x41, 0x20, 0xA,
             0x20, 0x6B63, 0x89E3, 0xFF1A, 0x62, 0x20, 0xA, 0x2A, 0x20, 0x61, 0x20, 0x78, 0x20] =
     Inr \<lparr>question = [0x51], choices = [], correct = [],
          explanation = [0x41, 0x20, 0xA, 0x20, 0x6B63, 0x89E3, 0xFF1A, 0x62, 0x20, 0xA,
                         0x2A, 0x20, 0x61, 0x20, 0x78]\<rparr> \<and>
   re_search_m EXPLAIN_RE
     [0x51, 0xA, 0x89E3, 0x8AAC, 0xA, 0x20, 0x41, 0x20, 0xA,
      0x20, 0x6B63, 0x89E3, 0xFF1A, 0x62, 0x20, 0xA, 0x2A, 0x20, 0x61, 0x20, 0x78, 0x20] =
     Some (2, 4) \<and>
   parse_qb [0x51, 0xA] =
     Inr \<lparr>question = [0x51], choices = [], correct = [], explanation = []\<rparr> \<and>
   filter kept_line (splitlines (drop 4
     [0x51, 0xA, 0x89E3, 0x8AAC, 0xA, 0x20, 0x41, 0x20, 0xA,
      0x20, 0x6B63, 0x89E3, 0xFF1A, 0x62, 0x20, 0xA, 0x2A, 0x20, 0x61, 0x20, 0x78, 0x20])) =
     [[0x20, 0x41, 0x20], [0x20, 0x6B63, 0x89E3, 0xFF1A, 0x62, 0x20],
      [0x2A, 0x20, 0x61, 0x20, 0x78, 0x20]] \<and>
   splitlines [0x41, 0x20, 0xA, 0x20, 0x6B63, 0x89E3, 0xFF1A, 0x62, 0x20, 0xA,
               0x2A, 0x20, 0x61, 0x20, 0x78] =
     [[0x41, 0x20], [0x20, 0x6B63, 0x89E3, 0xFF1A, 0x62, 0x20], [0x2A, 0x20, 0x61, 0x20, 0x78]]"
proof -
  let ?T = "[0x51, 0xA, 0x89E3, 0x8AAC, 0xA, 0x20, 0x41, 0x20, 0xA,
      0x20, 0x6B63, 0x89E3, 0xFF1A, 0x62, 0x20, 0xA, 0x2A, 0x20, 0x61, 0x20, 0x78, 0x20]"
  let ?E = "[0x41, 0x20, 0xA, 0x20, 0x6B63, 0x89E3, 0xFF1A, 0x62, 0x20, 0xA,
                         0x2A, 0x20, 0x61, 0x20, 0x78]"
  let ?R = "\<lparr>question = [0x51], choices = [], correct = [], explanation = ?E\<rparr>"
  let ?K = "[[0x20, 0x41, 0x20], [0x20, 0x6B63, 0x89E3, 0xFF1A, 0x62, 0x20],
      [0x2A, 0x20, 0x61, 0x20, 0x78, 0x20]]"
  have p: "parse_qb ?T = Inr ?R" by code_simp
  have m: "re_search_m EXPLAIN_RE ?T = Some (2, 4)" by code_simp
  have k: "filter kept_line (splitlines (drop 4 ?T)) = ?K" by code_simp
  have t: "trim_ends ?K =
      [[0x41, 0x20], [0x20, 0x6B63, 0x89E3, 0xFF1A, 0x62, 0x20], [0x2A, 0x20, 0x61, 0x20, 0x78]]"
    by code_simp
  note th = after_lines_not_classified [of ?T ?R 2 4]
  from th p m have "parse_qb (take 2 ?T) = Inr (?R\<lparr>explanation := []\<rparr>)"
    and "splitlines (explanation ?R) = trim_ends (filter kept_line (splitlines (drop 4 ?T)))"
    by blast+
  with k t have a: "parse_qb [0x51, 0xA] =
      Inr \<lparr>question = [0x51], choices = [], correct = [], explanation = []\<rparr>"
    and b: "splitlines ?E =
      [[0x41, 0x20], [0x20, 0x6B63, 0x89E3, 0xFF1A, 0x62, 0x20], [0x2A, 0x20, 0x61, 0x20, 0x78]]"
    by simp_all
  from p m a k b show ?thesis by blast
qed


subsection \<open>Missing structure\<close>

lemma classify_correct_none:
  assumes "classify ls q ch co = Inr (q', ch', co')"
    and "filter correct_line (map strip ls) = []"
  shows "co' = co"
  using assms
proof (induction ls arbitrary: q ch co)
  case Nil
  then show ?case by simp
next
  case (Cons raw rest)
  from Cons.prems(2) have nc: "\<not> correct_line (strip raw)"
    and r: "filter correct_line (map strip rest) = []"
    by (simp_all split: if_splits)
  show ?case
  proof (cases raw rest q ch co rule: classify_step_cases)
    case skip
    with Cons.prems(1) have "classify rest q ch co = Inr (q', ch', co')" by simp
    then show ?thesis using r by (rule Cons.IH)
  next
    case (correct t)
    then have "correct_line (strip raw)" by (simp add: correct_line_def)
    with nc show ?thesis by simp
  next
    case choice
    with Cons.prems(1) have "classify rest q
        (ch @ [re_sub_start (rx_cat [rx_lit 0x2A, rx_star isspace]) (strip raw)]) co =
        Inr (q', ch', co')" by simp
    then show ?thesis using r by (rule Cons.IH)
  next
    case prose
    with Cons.prems(1) have "classify rest (q @ (if q \<noteq> [] then [0xA] else []) @ strip raw) ch co =
        Inr (q', ch', co')" by simp
    then show ?thesis using r by (rule Cons.IH)
  qed
qed

text \<open>
  Claim C7. The classifier raises no error, whatever the input string: it always returns
  a record. Missing structure gives empty fields: without a marker line the explanation
  is empty; without a prose line in the "before" segment the question is empty; without a
  choice line there the choices are empty; without a correct-answer line there the correct
  answer is empty. On the empty string the record has an empty question, no choices, an
  empty correct answer and an empty explanation.
\<close>

theorem parse_qb_never_raises:
  "(\<exists>r. parse_qb text = Inr r) \<and>
   (parse_qb text = Inr r \<and> first_marker text = None \<longrightarrow> explanation r = []) \<and>
   (parse_qb text = Inr r \<and> filter prose_line (before_lines text) = [] \<longrightarrow> question r = []) \<and>
   (parse_qb text = Inr r \<and> filter choice_line (before_lines text) = [] \<longrightarrow> choices r = []) \<and>
   (parse_qb text = Inr r \<and> filter correct_line (before_lines text) = [] \<longrightarrow> correct r = []) \<and>
   parse_qb [] = Inr \<lparr>question = [], choices = [], correct = [], explanation = []\<rparr>"
proof -
  have 1: "\<exists>r. parse_qb text = Inr r" by (rule parse_qb_total)
  have 2: "parse_qb text = Inr r \<and> first_marker text = None \<longrightarrow> explanation r = []"
  proof
    assume a: "parse_qb text = Inr r \<and> first_marker text = None"
    then have "split_explanation text = (text, [])"
      by (simp add: split_explanation_at_marker split_at_marker_def)
    moreover from a have "explanation r = snd (split_explanation text)"
      using parse_qb_fields by blast
    ultimately show "explanation r = []" by simp
  qed
  have 3: "parse_qb text = Inr r \<and> filter prose_line (before_lines text) = [] \<longrightarrow>
      question r = []"
  proof
    assume a: "parse_qb text = Inr r \<and> filter prose_line (before_lines text) = []"
    then have "question r = join_nl (filter prose_line (before_lines text))"
      using question_prose_lines by blast
    with a show "question r = []" by simp
  qed
  have c: "\<exists>q. classify (splitlines (fst (split_explanation text))) [] [] [] =
      Inr (q, choices r, correct r)" if "parse_qb text = Inr r"
    using that parse_qb_fields by blast
  have 4: "parse_qb text = Inr r \<and> filter choice_line (before_lines text) = [] \<longrightarrow>
      choices r = []"
  proof
    assume a: "parse_qb text = Inr r \<and> filter choice_line (before_lines text) = []"
    with c obtain q where "classify (splitlines (fst (split_explanation text))) [] [] [] =
      Inr (q, choices r, correct r)" by blast
    then have "choices r = [] @ map without_marker (filter choice_line (before_lines text))"
      unfolding before_lines_def by (rule classify_choices)
    with a show "choices r = []" by simp
  qed
  have 5: "parse_qb text = Inr r \<and> filter correct_line (before_lines text) = [] \<longrightarrow>
      correct r = []"
  proof
    assume a: "parse_qb text = Inr r \<and> filter correct_line (before_lines text) = []"
    with c obtain q where "classify (splitlines (fst (split_explanation text))) [] [] [] =
      Inr (q, choices r, correct r)" by blast
    moreover from a have "filter correct_line
        (map strip (splitlines (fst (split_explanation text)))) = []"
      by (simp add: before_lines_def)
    ultimately show "correct r = []" by (rule classify_correct_none)
  qed
  have 6: "parse_qb [] = Inr \<lparr>question = [], choices = [], correct = [], explanation = []\<rparr>"
    by code_simp
  show ?thesis by (rule conjI [OF 1 conjI [OF 2 conjI [OF 3 conjI [OF 4 conjI [OF 5 6]]]]])
qed

text \<open>
  Three instances: a correct-answer line whose token is the full-width letter A, followed
  by a second full-width A; the single line \<^verbatim>\<open>Q\<close>, which has no marker, no choice
  and no correct answer; the single choice line \<^verbatim>\<open>* a x\<close>, which has no prose.
\<close>

theorem parse_qb_never_raises_witness:
  "(\<exists>r. parse_qb [0x6B63, 0x89E3, 0xFF21, 0xFF21] = Inr r) \<and>
   parse_qb [0x51] = Inr \<lparr>question = [0x51], choices = [], correct = [], explanation = []\<rparr> \<and>
   first_marker [0x51] = None \<and>
   filter choice_line (before_lines [0x51]) = [] \<and>
   filter correct_line (before_lines [0x51]) = [] \<and>
   parse_qb [0x2A, 0x20, 0x61, 0x20, 0x78] =
     Inr \<lparr>question = [], choices = [[0x61, 0x20, 0x78]], correct = [], explanation = []\<rparr> \<and>
   filter prose_line (before_lines [0x2A, 0x20, 0x61, 0x20, 0x78]) = [] \<and>
   parse_qb [] = Inr \<lparr>question = [], choices = [], correct = [], explanation = []\<rparr>"
proof -
  let ?Q = "[0x51] :: ustr"
  let ?RQ = "\<lparr>question = [0x51], choices = [], correct = [], explanation = []\<rparr>"
  let ?C = "[0x2A, 0x20, 0x61, 0x20, 0x78] :: ustr"
  let ?RC = "\<lparr>question = [], choices = [[0x61, 0x20, 0x78]], correct = [], explanation = []\<rparr>"
  have pq: "parse_qb ?Q = Inr ?RQ" by code_simp
  have fq: "first_marker ?Q = None" by code_simp
  have cq: "filter choice_line (before_lines ?Q) = []" by code_simp
  have oq: "filter correct_line (before_lines ?Q) = []" by code_simp
  have pc: "parse_qb ?C = Inr ?RC" by code_simp
  have fc: "filter prose_line (before_lines ?C) = []" by code_simp
  note t1 = parse_qb_never_raises [of "[0x6B63, 0x89E3, 0xFF21, 0xFF21]"]
  note t2 = parse_qb_never_raises [of ?Q ?RQ]
  note t3 = parse_qb_never_raises [of ?C ?RC]
  from t1 have a: "\<exists>r. parse_qb [0x6B63, 0x89E3, 0xFF21, 0xFF21] = Inr r" by blast
  from t1 have e: "parse_qb [] =
      Inr \<lparr>question = [], choices = [], correct = [], explanation = []\<rparr>" by blast
  from t2 pq fq cq oq have "explanation ?RQ = [] \<and> choices ?RQ = [] \<and> correct ?RQ = []"
    by blast
  from t3 pc fc have "question ?RC = []" by blast
  from a pq fq cq oq pc fc e show ?thesis by blast
qed

subsection \<open>Two invocations\<close>

lemma is_noise_st_globals: "snd (is_noise_st l g) = g"
  by (simp add: is_noise_st_def)

lemma classify_st_globals: "snd (classify_st ls q ch co g) = g"
proof (induction ls arbitrary: q ch co)
  case Nil
  show ?case by simp
next
  case (Cons raw rest)
  show ?case
    by (simp add: is_noise_st_def Let_def Cons.IH split: option.split sum.split)
qed

lemma kept_lines_st_globals: "snd (kept_lines_st ls g) = g"
proof (induction ls)
  case Nil
  show ?case by simp
next
  case (Cons l ls)
  then show ?case
    by (cases "kept_lines_st ls g") (simp add: is_noise_st_def)
qed

lemma parse_qb_st_globals: "snd (parse_qb_st text g) = g"
proof -
  obtain before expl g1 where
    s: "(case re_search_m EXPLAIN_RE text of
              Some (start, end) \<Rightarrow>
                (case kept_lines_st (splitlines (drop end text)) g of
                   (ks, g1) \<Rightarrow> (take start text, strip (join_nl ks), g1))
            | None \<Rightarrow> (text, [], g)) = (before, expl, g1)"
    using prod_cases3 by blast
  have g1: "g1 = g"
  proof (cases "re_search_m EXPLAIN_RE text")
    case None
    with s show ?thesis by simp
  next
    case (Some m)
    obtain st en where m: "m = (st, en)" by (cases m)
    obtain ks g' where k: "kept_lines_st (splitlines (drop en text)) g = (ks, g')"
      by (cases "kept_lines_st (splitlines (drop en text)) g")
    then have "g' = g" using kept_lines_st_globals [of "splitlines (drop en text)" g] by simp
    with s Some m k show ?thesis by simp
  qed
  obtain res g2 where c: "classify_st (splitlines before) [] [] [] g = (res, g2)"
    by (cases "classify_st (splitlines before) [] [] [] g")
  then have g2: "g2 = g" using classify_st_globals [of "splitlines before" "[]" "[]" "[]" g] by simp
  from s g1 c g2 show ?thesis
    by (simp add: parse_qb_st_def split: sum.split prod.split)
qed

lemma is_noise_st_module: "is_noise_st l module_globals = (is_noise l, module_globals)"
  by (simp add: is_noise_st_def is_noise_def module_globals_def)

lemma module_globals_simps:
  "correct_re module_globals = CORRECT_RE_match" "choice_re module_globals = CHOICE_RE"
  by (simp_all add: module_globals_def)

lemma classify_st_module:
  "classify_st ls q ch co module_globals = (classify ls q ch co, module_globals)"
proof (induction ls arbitrary: q ch co)
  case Nil
  show ?case by simp
next
  case (Cons raw rest)
  show ?case
    by (simp add: is_noise_st_module module_globals_simps Let_def Cons.IH
          split: option.split sum.split)
qed

lemma kept_lines_st_module:
  "kept_lines_st ls module_globals =
     (filter (\<lambda>l. strip l \<noteq> [] \<and> \<not> is_noise l) ls, module_globals)"
  by (induction ls) (simp_all add: is_noise_st_module)

lemma parse_qb_st_module: "parse_qb_st text module_globals = (parse_qb text, module_globals)"
proof (cases "re_search_m EXPLAIN_RE text")
  case None
  then show ?thesis
    by (simp add: parse_qb_st_def parse_qb_def split_explanation_def classify_st_module
          split: sum.split)
next
  case (Some m)
  obtain st en where m: "m = (st, en)" by (cases m)
  with Some show ?thesis
    by (simp add: parse_qb_st_def parse_qb_def split_explanation_def classify_st_module
          kept_lines_st_module split: sum.split)
qed

text \<open>
  Claim C8. (1) An invocation of the classifier leaves the module's names as they were,
  whatever they hold, so a second invocation on the same string runs in the same state
  and returns the same result. (2) In the state of the module both invocations return
  the same record, the one \<open>parse_qb\<close> gives. (3) In that state the classifier with
  explicit state returns what \<open>parse_qb\<close> returns.
\<close>

theorem parse_qb_deterministic:
  "(parse_qb_st text g = (r1, g1) \<and> parse_qb_st text g1 = (r2, g2) \<longrightarrow>
      g1 = g \<and> g2 = g \<and> r1 = r2) \<and>
   (parse_qb_st text module_globals = (r1, g1) \<and> parse_qb_st text g1 = (r2, g2) \<longrightarrow>
      (\<exists>r. r1 = Inr r \<and> r2 = Inr r \<and> parse_qb text = Inr r)) \<and>
   parse_qb_st text module_globals = (parse_qb text, module_globals)"
proof -
  have 1: "parse_qb_st text g = (r1, g1) \<and> parse_qb_st text g1 = (r2, g2) \<longrightarrow>
      g1 = g \<and> g2 = g \<and> r1 = r2"
  proof
    assume a: "parse_qb_st text g = (r1, g1) \<and> parse_qb_st text g1 = (r2, g2)"
    then have "snd (parse_qb_st text g) = g1" by simp
    then have g1: "g1 = g" by (simp only: parse_qb_st_globals)
    from a have "snd (parse_qb_st text g1) = g2" by simp
    then have g2: "g2 = g1" by (simp only: parse_qb_st_globals)
    from a g1 have "(r1, g1) = (r2, g2)" by metis
    then have "r1 = r2" by simp
    with g1 g2 show "g1 = g \<and> g2 = g \<and> r1 = r2" by simp
  qed
  have 3: "parse_qb_st text module_globals = (parse_qb text, module_globals)"
    by (rule parse_qb_st_module)
  have 2: "parse_qb_st text module_globals = (r1, g1) \<and> parse_qb_st text g1 = (r2, g2) \<longrightarrow>
      (\<exists>r. r1 = Inr r \<and> r2 = Inr r \<and> parse_qb text = Inr r)"
  proof
    assume a: "parse_qb_st text module_globals = (r1, g1) \<and> parse_qb_st text g1 = (r2, g2)"
    with 3 have "r1 = parse_qb text" "g1 = module_globals" by simp_all
    with a 3 have "r2 = parse_qb text" by simp
    with \<open>r1 = parse_qb text\<close> show "\<exists>r. r1 = Inr r \<and> r2 = Inr r \<and> parse_qb text = Inr r"
      using parse_qb_total [of "text"] by auto
  qed
  show ?thesis by (rule conjI [OF 1 conjI [OF 2 3]])
qed

theorem parse_qb_deterministic_witness:
  "fst (parse_qb_st [0x51, 0xA, 0x2A, 0x20, 0x61, 0x20, 0x78] module_globals) =
     Inr \<lparr>question = [0x51], choices = [[0x61, 0x20, 0x78]], correct = [], explanation = []\<rparr> \<and>
   fst (parse_qb_st [0x51, 0xA, 0x2A, 0x20, 0x61, 0x20, 0x78]
         (snd (parse_qb_st [0x51, 0xA, 0x2A, 0x20, 0x61, 0x20, 0x78] module_globals))) =
     Inr \<lparr>question = [0x51], choices = [[0x61, 0x20, 0x78]], correct = [], explanation = []\<rparr> \<and>
   snd (parse_qb_st [0x51, 0xA, 0x2A, 0x20, 0x61, 0x20, 0x78] module_globals) = module_globals"
proof -
  let ?T = "[0x51, 0xA, 0x2A, 0x20, 0x61, 0x20, 0x78]"
  let ?R = "\<lparr>question = [0x51], choices = [[0x61, 0x20, 0x78]], correct = [],
             explanation = []\<rparr>"
  let ?r1 = "fst (parse_qb_st ?T module_globals)"
  let ?g1 = "snd (parse_qb_st ?T module_globals)"
  let ?r2 = "fst (parse_qb_st ?T ?g1)"
  let ?g2 = "snd (parse_qb_st ?T ?g1)"
  have p: "parse_qb ?T = Inr ?R" by code_simp
  have h: "parse_qb_st ?T module_globals = (?r1, ?g1) \<and> parse_qb_st ?T ?g1 = (?r2, ?g2)"
    by simp
  note th = parse_qb_deterministic [of ?T module_globals ?r1 ?g1 ?r2 ?g2]
  from th h have a: "?g1 = module_globals \<and> ?g2 = module_globals \<and> ?r1 = ?r2" by blast
  from th h have "\<exists>r. ?r1 = Inr r \<and> ?r2 = Inr r \<and> parse_qb ?T = Inr r" by blast
  with p have "?r1 = Inr ?R \<and> ?r2 = Inr ?R" by auto
  with a show ?thesis by simp
qed

end
